theory Spec2Isabelle
  imports Complex_Main
begin

section \<open>The virtual list of \<open>virtual-list.js\<close>\<close>

text \<open>
  The component keeps a bounded pool of cards (DOM elements), fetches pages of records
  when one of two sentinel elements becomes visible, recycles the cards of the pool
  once it holds \<open>2 * pageSize\<close> of them, and positions the cards and both sentinels
  with CSS transforms.

  Modelling decisions.
  \<^item> A card is a reference (a \<open>nat\<close>) into a store \<open>elems\<close>; the pool, the slices taken
    from it and the children of \<open>#virtual-list\<close> hold references, so the sharing of
    the JavaScript arrays is kept.
  \<^item> JavaScript numbers are modelled as exact reals: no rounding, no \<open>NaN\<close> and no
    infinity for a position or a height. \<open>null\<close> and \<open>undefined\<close> are \<open>None\<close>.
  \<^item> An \<open>async\<close> handler is run to completion as one step; the page is returned by
    \<open>getPage\<close> at once. A thrown \<open>TypeError\<close> is returned next to the state the handler
    leaves behind (the rejected promise of the source is never awaited).
  \<^item> The host's functions are fields of \<open>props\<close>, each \<open>None\<close> when the host left it
    out. \<open>getTemplate\<close> gives the content of a newly created card, \<open>updateTemplate\<close>
    the new content of an existing one. Every call of \<open>getPage\<close> and \<open>updateTemplate\<close>
    is logged.
  \<^item> \<open>container.style.height = container.scrollHeight\<close> is a quantity of the browser's
    layout and is left out.
\<close>

subsection \<open>Data\<close>

datatype error = TypeError

text \<open>\<open>translateY(value)\<close> builds the text \<open>translateY(<value>px)\<close>; \<open>None\<close> prints as \<open>null\<close>.\<close>

datatype css = translateY "real option"

datatype direction = Down | Top

record 'd element =
  datay :: "real option"
  transform :: "css option"
  height :: real
  content :: 'd

record 'd props =
  getPage :: "(int \<Rightarrow> 'd list) option"
  getTemplate :: "('d \<Rightarrow> 'd element) option"
  updateTemplate :: "('d \<Rightarrow> 'd element \<Rightarrow> 'd element) option"
  pageSize :: "int option"

text \<open>The document the component is mounted in: the cards that exist, the children of
  \<open>#virtual-list\<close> and the transforms of both sentinels.\<close>

record 'd document =
  doc_elems :: "nat \<Rightarrow> 'd element"
  doc_nextId :: nat
  doc_listChildren :: "nat list"
  doc_topObserver :: "css option"
  doc_bottomObserver :: "css option"

text \<open>The fields of the \<open>VirtualList\<close> object, the document, and the two call logs.
  \<open>end_cursor\<close> is the field \<open>end\<close> of the source; \<open>limit\<close> is \<open>None\<close> when it is \<open>NaN\<close>.\<close>

record 'd state =
  props :: "'d props"
  start :: int
  end_cursor :: int
  limit :: "int option"
  pool :: "nat list"
  elems :: "nat \<Rightarrow> 'd element"
  nextId :: nat
  listChildren :: "nat list"
  topObserver :: "css option"
  bottomObserver :: "css option"
  fetchLog :: "int list"
  bindLog :: "('d \<times> nat option) list"

record entry =
  target_id :: string
  isIntersecting :: bool

subsection \<open>JavaScript helpers\<close>

definition MARGIN :: real where
  "MARGIN = 16"

text \<open>\<open>xs[i]\<close>: \<open>undefined\<close> out of range.\<close>

definition index :: "'a list \<Rightarrow> nat \<Rightarrow> 'a option" where
  "index xs i = (if i < length xs then Some (xs ! i) else None)"

text \<open>\<open>xs.at(k)\<close>: a negative \<open>k\<close> counts from the end.\<close>

definition array_at :: "'a list \<Rightarrow> int \<Rightarrow> 'a option" where
  "array_at xs k =
     (let len = int (length xs); j = (if k < 0 then len + k else k)
      in if 0 \<le> j \<and> j < len then Some (xs ! nat j) else None)"

text \<open>\<open>xs.slice(start, end)\<close>, an argument left out or \<open>undefined\<close> being \<open>None\<close>.\<close>

definition slice :: "'a list \<Rightarrow> int option \<Rightarrow> int option \<Rightarrow> 'a list" where
  "slice xs from until =
     (let len = int (length xs);
          k = (case from of None \<Rightarrow> 0
               | Some a \<Rightarrow> if a < 0 then max (len + a) 0 else min a len);
          final = (case until of None \<Rightarrow> len
               | Some b \<Rightarrow> if b < 0 then max (len + b) 0 else min b len)
      in take (nat (final - k)) (drop (nat k) xs))"

text \<open>A value read as a number in arithmetic: \<open>null\<close> is \<open>0\<close>.\<close>

definition to_number :: "real option \<Rightarrow> real" where
  "to_number v = (case v of None \<Rightarrow> 0 | Some r \<Rightarrow> r)"

text \<open>The function \<open>y(element, value)\<close> of the source (renamed: a constant \<open>y\<close> would
  capture the variable). It writes \<open>data-y\<close> when a value is given and the element
  exists, and reads the attribute back: \<open>null\<close> when the element or the attribute is
  missing.\<close>

definition data_y :: "nat option \<Rightarrow> real option \<Rightarrow> 'd state \<Rightarrow> real option \<times> 'd state" where
  "data_y element v s =
     (let s1 = (case (v, element) of
                  (Some r, Some e) \<Rightarrow> s\<lparr>elems := (elems s)(e := (elems s e)\<lparr>datay := Some r\<rparr>)\<rparr>
                | _ \<Rightarrow> s)
      in (case element of None \<Rightarrow> None | Some e \<Rightarrow> datay (elems s1 e), s1))"

definition getBoundingClientRect :: "nat option \<Rightarrow> 'd state \<Rightarrow> error + real" where
  "getBoundingClientRect element s =
     (case element of None \<Rightarrow> Inl TypeError | Some e \<Rightarrow> Inr (height (elems s e)))"

text \<open>\<open>element.style.transform = value\<close>.\<close>

definition set_transform :: "nat option \<Rightarrow> css \<Rightarrow> 'd state \<Rightarrow> error option \<times> 'd state" where
  "set_transform element c s =
     (case element of
        None \<Rightarrow> (Some TypeError, s)
      | Some e \<Rightarrow> (None, s\<lparr>elems := (elems s)(e := (elems s e)\<lparr>transform := Some c\<rparr>)\<rparr>))"

text \<open>A \<open>for\<close> loop over the given indices that stops at the first exception.\<close>

fun for_loop :: "(nat \<Rightarrow> 's \<Rightarrow> error option \<times> 's) \<Rightarrow> nat list \<Rightarrow> 's \<Rightarrow> error option \<times> 's" where
  "for_loop body [] s = (None, s)"
| "for_loop body (i # js) s =
     (case body i s of
        (None, s1) \<Rightarrow> for_loop body js s1
      | (Some e, s1) \<Rightarrow> (Some e, s1))"

subsection \<open>The position engine: \<open>#updateElementsPosition\<close>\<close>

text \<open>The body of the loop of the \<open>down\<close> branch, at index \<open>i\<close>.\<close>

definition down_step :: "nat \<Rightarrow> 'd state \<Rightarrow> error option \<times> 'd state" where
  "down_step i s =
     (let prev = array_at (pool s) (int i - 1); curr = index (pool s) i
      in case fst (data_y prev None s) of
           None \<Rightarrow> (None, snd (data_y curr (Some 0) s))
         | Some yp \<Rightarrow>
             (case getBoundingClientRect prev s of
                Inl e \<Rightarrow> (Some e, s)
              | Inr h \<Rightarrow>
                  (let newY = yp + MARGIN * 2 + h;
                       s1 = snd (data_y curr (Some newY) s)
                   in set_transform curr (translateY (Some newY)) s1)))"

text \<open>The body of the loop of the \<open>top\<close> branch, at index \<open>i\<close>.\<close>

definition top_step :: "nat \<Rightarrow> 'd state \<Rightarrow> error option \<times> 'd state" where
  "top_step i s =
     (let curr = index (pool s) i; next = array_at (pool s) (int i + 1);
          yn = fst (data_y next None s)
      in case getBoundingClientRect curr s of
           Inl e \<Rightarrow> (Some e, s)
         | Inr h \<Rightarrow>
             (let newY = to_number yn - MARGIN * 2 - h;
                  s1 = snd (data_y curr (Some newY) s)
              in set_transform curr (translateY (Some newY)) s1))"

text \<open>The indices \<open>pageSize - 1, ..., 0\<close> of the \<open>top\<close> loop; none when \<open>pageSize\<close> is
  \<open>undefined\<close> (\<open>NaN >= 0\<close> is false).\<close>

definition top_indices :: "int option \<Rightarrow> nat list" where
  "top_indices ps = (case ps of None \<Rightarrow> [] | Some k \<Rightarrow> rev [0..<nat k])"

definition updateElementsPosition :: "direction \<Rightarrow> 'd state \<Rightarrow> error option \<times> 'd state" where
  "updateElementsPosition dir s =
     (case (case dir of
              Down \<Rightarrow> for_loop down_step [0..<length (pool s)] s
            | Top \<Rightarrow> for_loop top_step (top_indices (pageSize (props s))) s) of
        (Some e, s1) \<Rightarrow> (Some e, s1)
      | (None, s1) \<Rightarrow>
          (let firstv = index (pool s1) 0; lastv = array_at (pool s1) (- 1);
               topY = fst (data_y firstv None s1);
               yl = fst (data_y lastv None s1)
           in case getBoundingClientRect lastv s1 of
                Inl e \<Rightarrow> (Some e, s1)
              | Inr h \<Rightarrow>
                  (None, s1\<lparr>topObserver := Some (translateY topY),
                            bottomObserver :=
                              Some (translateY (Some (to_number yl + MARGIN * 2 + h)))\<rparr>)))"

subsection \<open>The window manager\<close>

text \<open>\<open>#updateData(elements, data)\<close>: one call of \<open>updateTemplate\<close> for each datum, with
  the element at the same index, \<open>undefined\<close> past the end of \<open>elements\<close> (the call is
  logged and changes no card). A missing \<open>updateTemplate\<close> throws at the first datum.\<close>

fun bindAll :: "('d \<Rightarrow> 'd element \<Rightarrow> 'd element) \<Rightarrow> nat list \<Rightarrow> 'd list \<Rightarrow> 'd state \<Rightarrow> 'd state" where
  "bindAll ut es [] s = s"
| "bindAll ut [] (d # ds) s = bindAll ut [] ds (s\<lparr>bindLog := bindLog s @ [(d, None)]\<rparr>)"
| "bindAll ut (e # es) (d # ds) s =
     bindAll ut es ds
       (s\<lparr>elems := (elems s)(e := ut d (elems s e)), bindLog := bindLog s @ [(d, Some e)]\<rparr>)"

definition updateData :: "nat list \<Rightarrow> 'd list \<Rightarrow> 'd state \<Rightarrow> error option \<times> 'd state" where
  "updateData elements data s =
     (if data = [] then (None, s)
      else case updateTemplate (props s) of
             None \<Rightarrow> (Some TypeError, s)
           | Some ut \<Rightarrow> (None, bindAll ut elements data s))"

text \<open>The loop of the append branch: a new card for each datum, pushed to the pool and
  collected in the fragment.\<close>

fun createCards :: "('d \<Rightarrow> 'd element) \<Rightarrow> 'd list \<Rightarrow> 'd state \<Rightarrow> nat list \<times> 'd state" where
  "createCards gt [] s = ([], s)"
| "createCards gt (d # ds) s =
     (let card = nextId s;
          s1 = s\<lparr>elems := (elems s)(card := gt d), nextId := Suc card,
                 pool := pool s @ [card]\<rparr>;
          r = createCards gt ds s1
      in (card # fst r, snd r))"

definition handleBottomObserver :: "'d state \<Rightarrow> error option \<times> 'd state" where
  "handleBottomObserver s =
     (let s1 = s\<lparr>end_cursor := end_cursor s + 1\<rparr>
      in case getPage (props s) of
           None \<Rightarrow> (Some TypeError, s1)
         | Some gp \<Rightarrow>
             (let data = gp (end_cursor s);
                  s2 = s1\<lparr>fetchLog := fetchLog s1 @ [end_cursor s]\<rparr>
              in if (case limit s2 of None \<Rightarrow> False | Some l \<Rightarrow> int (length (pool s2)) < l)
                 then
                   (if data = [] then updateElementsPosition Down s2
                    else case getTemplate (props s2) of
                           None \<Rightarrow> (Some TypeError, s2)
                         | Some gt \<Rightarrow>
                             (let r = createCards gt data s2;
                                  s3 = (snd r)\<lparr>listChildren := listChildren (snd r) @ fst r\<rparr>
                              in updateElementsPosition Down s3))
                 else
                   (let toRecycle = slice (pool s2) (Some 0) (pageSize (props s2));
                        unchanged = slice (pool s2) (pageSize (props s2)) None;
                        s3 = s2\<lparr>pool := unchanged @ toRecycle\<rparr>
                    in case updateData toRecycle data s3 of
                         (Some e, s4) \<Rightarrow> (Some e, s4)
                       | (None, s4) \<Rightarrow>
                           updateElementsPosition Down (s4\<lparr>start := start s4 + 1\<rparr>))))"

definition handleTopObserver :: "'d state \<Rightarrow> error option \<times> 'd state" where
  "handleTopObserver s =
     (let s1 = s\<lparr>start := start s - 1, end_cursor := end_cursor s - 1\<rparr>
      in case getPage (props s1) of
           None \<Rightarrow> (Some TypeError, s1)
         | Some gp \<Rightarrow>
             (let data = gp (start s1);
                  s2 = s1\<lparr>fetchLog := fetchLog s1 @ [start s1]\<rparr>;
                  unchanged = slice (pool s2) (Some 0) (pageSize (props s2));
                  toRecycle = slice (pool s2) (pageSize (props s2)) None;
                  s3 = s2\<lparr>pool := toRecycle @ unchanged\<rparr>
              in case updateData toRecycle data s3 of
                   (Some e, s4) \<Rightarrow> (Some e, s4)
                 | (None, s4) \<Rightarrow> updateElementsPosition Top s4))"

text \<open>One entry of a notification. The handlers are \<open>async\<close> and not awaited: what they
  throw does not reach the loop.\<close>

definition handleEntry :: "entry \<Rightarrow> 'd state \<Rightarrow> 'd state" where
  "handleEntry e s =
     (if isIntersecting e then
        (if target_id e = ''top-observer'' \<and> start s > 0 then snd (handleTopObserver s)
         else if target_id e = ''bottom-observer'' then snd (handleBottomObserver s)
         else s)
      else s)"

fun handleIntersectionObserver :: "entry list \<Rightarrow> 'd state \<Rightarrow> 'd state" where
  "handleIntersectionObserver [] s = s"
| "handleIntersectionObserver (e # es) s = handleIntersectionObserver es (handleEntry e s)"

text \<open>The constructor: \<open>limit\<close> is \<open>pageSize * 2\<close>, \<open>NaN\<close> without a \<open>pageSize\<close>. The
  document is the one the component is mounted in.\<close>

definition constructor :: "'d document \<Rightarrow> 'd props \<Rightarrow> 'd state" where
  "constructor doc p =
     \<lparr>props = p, start = 0, end_cursor = 0,
      limit = (case pageSize p of None \<Rightarrow> None | Some k \<Rightarrow> Some (k * 2)),
      pool = [],
      elems = doc_elems doc, nextId = doc_nextId doc,
      listChildren = doc_listChildren doc,
      topObserver = doc_topObserver doc, bottomObserver = doc_bottomObserver doc,
      fetchLog = [], bindLog = []\<rparr>"

text \<open>The expression \<open>new VirtualList(root, props)\<close> (\<open>root\<close> is the document here), with its exception as a value. The
  body of the constructor has no \<open>throw\<close> and no operation that can throw (spreading
  \<open>undefined\<close> gives an empty object), so there is no \<open>Inl\<close> branch.\<close>

definition new_VirtualList :: "'d document \<Rightarrow> 'd props \<Rightarrow> error + 'd state" where
  "new_VirtualList doc p = Inr (constructor doc p)"

subsection \<open>Derived quantities and invariants\<close>

text \<open>The position the \<open>down\<close> loop gives the first card of the pool: its predecessor
  \<open>pool.at(-1)\<close> is the last card, read before any card is written.\<close>

definition first_pos :: "'d state \<Rightarrow> real" where
  "first_pos s =
     (case datay (elems s (last (pool s))) of
        None \<Rightarrow> 0
      | Some yl \<Rightarrow> yl + MARGIN * 2 + height (elems s (last (pool s))))"

text \<open>The height the pool takes when stacked: every card's height and two margins.\<close>

definition extent :: "'d state \<Rightarrow> real" where
  "extent s = (\<Sum>m<length (pool s). height (elems s (pool s ! m)) + MARGIN * 2)"

text \<open>The position of the card at index \<open>j\<close> after a \<open>down\<close> pass, in closed form.\<close>

definition down_pos :: "'d state \<Rightarrow> nat \<Rightarrow> real" where
  "down_pos s j = first_pos s + (\<Sum>m<j. height (elems s (pool s ! m)) + MARGIN * 2)"

text \<open>The invariant of the cursors and the pool for a page size \<open>n\<close>.\<close>

definition cursor_inv :: "int \<Rightarrow> 'd state \<Rightarrow> bool" where
  "cursor_inv n s \<longleftrightarrow>
     int (length (pool s)) = n * (end_cursor s - start s)
     \<and> 0 \<le> start s \<and> 0 \<le> end_cursor s - start s \<and> end_cursor s - start s \<le> 2
     \<and> (0 < start s \<longrightarrow> int (length (pool s)) = 2 * n)
     \<and> distinct (pool s) \<and> (\<forall>v\<in>set (pool s). v < nextId s)"

text \<open>A state of a component built from the props \<open>p\<close> with page size \<open>n\<close>.\<close>

definition mounted :: "'d props \<Rightarrow> int \<Rightarrow> 'd state \<Rightarrow> bool" where
  "mounted p n s \<longleftrightarrow> props s = p \<and> limit s = Some (n * 2) \<and> cursor_inv n s"

subsection \<open>A concrete component\<close>

text \<open>An empty document, and props with one record a page: page \<open>k\<close> holds the record
  \<open>k\<close>, every card is 10 high, and rebinding a card replaces its content.\<close>

definition blank_document :: "nat document" where
  "blank_document =
     \<lparr>doc_elems = (\<lambda>_. \<lparr>datay = None, transform = None, height = 0, content = 0\<rparr>),
      doc_nextId = 0, doc_listChildren = [], doc_topObserver = None,
      doc_bottomObserver = None\<rparr>"

definition one_per_page :: "nat props" where
  "one_per_page =
     \<lparr>getPage = Some (\<lambda>k. [nat k]),
      getTemplate = Some (\<lambda>d. \<lparr>datay = None, transform = None, height = 10, content = d\<rparr>),
      updateTemplate = Some (\<lambda>d e. e\<lparr>content := d\<rparr>),
      pageSize = Some 1\<rparr>"

text \<open>Props with nothing in them.\<close>

definition bare_props :: "nat props" where
  "bare_props = \<lparr>getPage = None, getTemplate = None, updateTemplate = None, pageSize = None\<rparr>"

definition bottom_entry :: entry where
  "bottom_entry = \<lparr>target_id = ''bottom-observer'', isIntersecting = True\<rparr>"

definition top_entry :: entry where
  "top_entry = \<lparr>target_id = ''top-observer'', isIntersecting = True\<rparr>"

text \<open>Three pages down, then the top sentinel is seen.\<close>

definition scrolled_back :: "nat state" where
  "scrolled_back =
     handleIntersectionObserver [bottom_entry, bottom_entry, bottom_entry, top_entry]
       (constructor blank_document one_per_page)"

text \<open>The state after the bottom sentinel was seen \<open>k\<close> times.\<close>

definition after_pages :: "nat \<Rightarrow> nat state" where
  "after_pages k =
     handleIntersectionObserver (replicate k bottom_entry) (constructor blank_document one_per_page)"

section \<open>Proofs\<close>

subsection \<open>Helpers\<close>

text \<open>The definitions a concrete run unfolds.\<close>

lemmas eval_defs = after_pages_def blank_document_def one_per_page_def bottom_entry_def
  constructor_def handleEntry_def handleBottomObserver_def
  handleTopObserver_def updateData_def updateElementsPosition_def down_step_def top_step_def
  top_indices_def data_y_def getBoundingClientRect_def set_transform_def to_number_def
  slice_def array_at_def index_def MARGIN_def Let_def numeral_eq_Suc

lemma index_Some: "i < length xs \<Longrightarrow> index xs i = Some (xs ! i)"
  by (simp add: index_def)

lemma index_None: "length xs \<le> i \<Longrightarrow> index xs i = None"
  by (simp add: index_def)

lemma array_at_succ: "array_at xs (int i + 1) = index xs (Suc i)"
  by (auto simp: array_at_def index_def Let_def nat_add_distrib)

lemma array_at_nat: "array_at xs (int i) = index xs i"
  by (auto simp: array_at_def index_def Let_def)

lemma array_at_last: "array_at xs (- 1) = (if xs = [] then None else Some (last xs))"
  by (cases xs rule: rev_cases) (auto simp: array_at_def Let_def nat_add_distrib)

lemma slice_take: "0 \<le> n \<Longrightarrow> slice xs (Some 0) (Some n) = take (nat n) xs"
  by (auto simp: slice_def Let_def min_def)

lemma slice_drop: "0 \<le> n \<Longrightarrow> slice xs (Some n) None = drop (nat n) xs"
  by (auto simp: slice_def Let_def min_def)

lemma data_y_read [simp]:
  "data_y (Some e) None s = (datay (elems s e), s)"
  "data_y None v s = (None, s)"
  by (auto simp: data_y_def split: option.splits)

lemma data_y_write [simp]:
  "data_y (Some e) (Some r) s = (Some r, s\<lparr>elems := (elems s)(e := (elems s e)\<lparr>datay := Some r\<rparr>)\<rparr>)"
  by (simp add: data_y_def)

lemma for_loop_append:
  "for_loop body (xs @ ys) s =
     (case for_loop body xs s of (None, s1) \<Rightarrow> for_loop body ys s1 | (Some e, s1) \<Rightarrow> (Some e, s1))"
  by (induction xs arbitrary: s) (auto split: prod.splits option.splits)

lemma down_step_first:
  assumes "pool s \<noteq> []"
  shows "down_step 0 s =
    (None, s\<lparr>elems := (elems s)(pool s ! 0 :=
        (case datay (elems s (last (pool s))) of
           None \<Rightarrow> (elems s (pool s ! 0))\<lparr>datay := Some 0\<rparr>
         | Some yl \<Rightarrow> (elems s (pool s ! 0))\<lparr>datay := Some (first_pos s),
               transform := Some (translateY (Some (first_pos s)))\<rparr>))\<rparr>)"
  using assms
  by (auto simp: down_step_def array_at_last index_def getBoundingClientRect_def
      set_transform_def first_pos_def Let_def split: option.splits)

lemma down_step_next:
  assumes "Suc i < length (pool s)" "datay (elems s (pool s ! i)) = Some yp"
  shows "down_step (Suc i) s =
    (None, s\<lparr>elems := (elems s)(pool s ! Suc i :=
        (elems s (pool s ! Suc i))\<lparr>datay := Some (yp + MARGIN * 2 + height (elems s (pool s ! i))),
           transform := Some (translateY (Some (yp + MARGIN * 2 + height (elems s (pool s ! i)))))\<rparr>)\<rparr>)"
  using assms
  by (auto simp: down_step_def array_at_nat index_def getBoundingClientRect_def
      set_transform_def Let_def split: option.splits)

lemma down_loop:
  assumes "distinct (pool s)" and "k \<le> length (pool s)"
  shows "\<exists>f. for_loop down_step [0..<k] s = (None, s\<lparr>elems := f\<rparr>)
           \<and> (\<forall>j<k. datay (f (pool s ! j)) = Some (down_pos s j))
           \<and> (\<forall>v. v \<notin> set (take k (pool s)) \<longrightarrow> f v = elems s v)
           \<and> (\<forall>v. height (f v) = height (elems s v))
           \<and> (\<forall>v. content (f v) = content (elems s v))"
  using assms(2)
proof (induction k)
  case 0
  have "for_loop down_step [0..<0] s = (None, s\<lparr>elems := elems s\<rparr>)" by simp
  then show ?case by blast
next
  case (Suc k)
  then have klt: "k < length (pool s)" by simp
  from Suc obtain f where
    run: "for_loop down_step [0..<k] s = (None, s\<lparr>elems := f\<rparr>)"
    and pos: "\<forall>j<k. datay (f (pool s ! j)) = Some (down_pos s j)"
    and frame: "\<forall>v. v \<notin> set (take k (pool s)) \<longrightarrow> f v = elems s v"
    and hgt: "\<forall>v. height (f v) = height (elems s v)"
    and cnt: "\<forall>v. content (f v) = content (elems s v)"
    by auto
  let ?s1 = "s\<lparr>elems := f\<rparr>"
  have split: "for_loop down_step [0..<Suc k] s =
      (case down_step k ?s1 of (None, s2) \<Rightarrow> (None, s2) | (Some e, s2) \<Rightarrow> (Some e, s2))"
    by (simp add: for_loop_append run split: prod.splits option.splits)
  have other: "pool s ! j \<noteq> pool s ! k" if "j < k" for j
    using that klt assms(1) by (simp add: nth_eq_iff_index_eq)
  have notin: "v \<noteq> pool s ! k \<and> v \<notin> set (take k (pool s))"
    if "v \<notin> set (take (Suc k) (pool s))" for v
    using that klt by (simp add: take_Suc_conv_app_nth)
  obtain c where step: "down_step k ?s1 =
        (None, ?s1\<lparr>elems := f(pool s ! k := (f (pool s ! k))\<lparr>datay := Some (down_pos s k), transform := c\<rparr>)\<rparr>)"
  proof (cases k)
    case 0
    then have feq: "f = elems s" using frame by auto
    have ne: "pool s \<noteq> []" using klt by auto
    show ?thesis
    proof (cases "datay (elems s (last (pool s)))")
      case None
      then have "first_pos s = 0" by (simp add: first_pos_def)
      then have "down_step k ?s1 =
        (None, ?s1\<lparr>elems := f(pool s ! k := (f (pool s ! k))\<lparr>datay := Some (down_pos s k),
            transform := transform (f (pool s ! k))\<rparr>)\<rparr>)"
        using down_step_first[of ?s1] ne None 0 feq by (simp add: down_pos_def first_pos_def)
      then show ?thesis by (rule that)
    next
      case (Some yl)
      then have "down_step k ?s1 =
        (None, ?s1\<lparr>elems := f(pool s ! k := (f (pool s ! k))\<lparr>datay := Some (down_pos s k),
            transform := Some (translateY (Some (first_pos s)))\<rparr>)\<rparr>)"
        using down_step_first[of ?s1] ne 0 feq by (simp add: down_pos_def first_pos_def)
      then show ?thesis by (rule that)
    qed
  next
    case (Suc i)
    then have a: "datay (elems ?s1 (pool ?s1 ! i)) = Some (down_pos s i)" using pos by simp
    have b: "Suc i < length (pool ?s1)" using klt Suc by simp
    from b a have "down_step (Suc i) ?s1 = (None, ?s1\<lparr>elems := (elems ?s1)(pool ?s1 ! Suc i :=
        (elems ?s1 (pool ?s1 ! Suc i))\<lparr>datay := Some (down_pos s i + MARGIN * 2 + height (elems ?s1 (pool ?s1 ! i))),
           transform := Some (translateY (Some (down_pos s i + MARGIN * 2 + height (elems ?s1 (pool ?s1 ! i)))))\<rparr>)\<rparr>)"
      by (rule down_step_next)
    moreover have "down_pos s i + MARGIN * 2 + height (elems ?s1 (pool ?s1 ! i)) = down_pos s k"
      using Suc hgt by (simp add: down_pos_def)
    ultimately show ?thesis using Suc that by simp
  qed
  let ?f = "f(pool s ! k := (f (pool s ! k))\<lparr>datay := Some (down_pos s k), transform := c\<rparr>)"
  have "for_loop down_step [0..<Suc k] s = (None, s\<lparr>elems := ?f\<rparr>)"
    using split step by simp
  moreover have "\<forall>j<Suc k. datay (?f (pool s ! j)) = Some (down_pos s j)"
    using pos other by (auto simp: less_Suc_eq)
  moreover have "\<forall>v. v \<notin> set (take (Suc k) (pool s)) \<longrightarrow> ?f v = elems s v"
    using frame notin by auto
  moreover have "\<forall>v. height (?f v) = height (elems s v)" using hgt by simp
  moreover have "\<forall>v. content (?f v) = content (elems s v)" using cnt by simp
  ultimately show ?case by blast
qed

lemma top_step_ok:
  assumes "i < length (pool s)"
  shows "top_step i s =
    (None, s\<lparr>elems := (elems s)(pool s ! i := (elems s (pool s ! i))
       \<lparr>datay := Some (to_number (case index (pool s) (Suc i) of None \<Rightarrow> None
                                   | Some v \<Rightarrow> datay (elems s v))
                        - MARGIN * 2 - height (elems s (pool s ! i))),
        transform := Some (translateY (Some (to_number (case index (pool s) (Suc i) of None \<Rightarrow> None
                                   | Some v \<Rightarrow> datay (elems s v))
                        - MARGIN * 2 - height (elems s (pool s ! i)))))\<rparr>)\<rparr>)"
  using assms
  by (cases "index (pool s) (Suc i)")
     (simp_all add: top_step_def array_at_succ index_Some getBoundingClientRect_def
        set_transform_def Let_def)

lemma top_step_err: "length (pool s) \<le> i \<Longrightarrow> top_step i s = (Some TypeError, s)"
  by (simp add: top_step_def index_None getBoundingClientRect_def Let_def)

lemma top_loop:
  assumes "distinct (pool s)" and "i < length (pool s)"
  shows "\<exists>f. for_loop top_step (rev [0..<i]) s = (None, s\<lparr>elems := f\<rparr>)
           \<and> (\<forall>v. v \<notin> set (take i (pool s)) \<longrightarrow> f v = elems s v)
           \<and> (\<forall>v. height (f v) = height (elems s v))
           \<and> (\<forall>j. Suc j < i \<longrightarrow> datay (f (pool s ! j)) =
                  Some (to_number (datay (f (pool s ! Suc j))) - MARGIN * 2 - height (f (pool s ! j))))
           \<and> (0 < i \<longrightarrow> datay (f (pool s ! (i - 1))) =
                  Some (to_number (datay (elems s (pool s ! i))) - MARGIN * 2
                        - height (elems s (pool s ! (i - 1)))))"
  using assms
proof (induction i arbitrary: s)
  case 0
  have "for_loop top_step (rev [0..<0]) s = (None, s\<lparr>elems := elems s\<rparr>)" by simp
  then show ?case by blast
next
  case (Suc i)
  then have ilt: "i < length (pool s)" and silt: "Suc i < length (pool s)"
    and dist: "distinct (pool s)" by simp_all
  define yi where "yi = to_number (datay (elems s (pool s ! Suc i))) - MARGIN * 2
      - height (elems s (pool s ! i))"
  define g where "g = (elems s)(pool s ! i := (elems s (pool s ! i))
       \<lparr>datay := Some yi, transform := Some (translateY (Some yi))\<rparr>)"
  let ?s1 = "s\<lparr>elems := g\<rparr>"
  have step: "top_step i s = (None, ?s1)"
    using top_step_ok[OF ilt] silt by (simp add: index_Some g_def yi_def)
  have "distinct (pool ?s1)" "i < length (pool ?s1)" using dist ilt by simp_all
  from Suc.IH[OF this] obtain f where
    run: "for_loop top_step (rev [0..<i]) ?s1 = (None, s\<lparr>elems := f\<rparr>)"
    and frame: "\<forall>v. v \<notin> set (take i (pool s)) \<longrightarrow> f v = g v"
    and hgt: "\<forall>v. height (f v) = height (g v)"
    and rel: "\<forall>j. Suc j < i \<longrightarrow> datay (f (pool s ! j)) =
                  Some (to_number (datay (f (pool s ! Suc j))) - MARGIN * 2 - height (f (pool s ! j)))"
    and top: "0 < i \<longrightarrow> datay (f (pool s ! (i - 1))) =
                  Some (to_number (datay (g (pool s ! i))) - MARGIN * 2 - height (g (pool s ! (i - 1))))"
    by auto
  have gh: "height (g v) = height (elems s v)" for v by (simp add: g_def)
  have inotin: "pool s ! i \<notin> set (take i (pool s))"
  proof
    assume "pool s ! i \<in> set (take i (pool s))"
    then obtain j where "j < i" "pool s ! j = pool s ! i"
      using ilt by (auto simp: in_set_conv_nth)
    then show False using dist ilt by (simp add: nth_eq_iff_index_eq)
  qed
  then have fi: "f (pool s ! i) = g (pool s ! i)" using frame by simp
  have notin: "v \<noteq> pool s ! i \<and> v \<notin> set (take i (pool s))"
    if "v \<notin> set (take (Suc i) (pool s))" for v
    using that ilt by (simp add: take_Suc_conv_app_nth)
  have "for_loop top_step (rev [0..<Suc i]) s = (None, s\<lparr>elems := f\<rparr>)"
    using step run by simp
  moreover have "\<forall>v. v \<notin> set (take (Suc i) (pool s)) \<longrightarrow> f v = elems s v"
    using frame notin by (auto simp: g_def)
  moreover have "\<forall>v. height (f v) = height (elems s v)" using hgt gh by simp
  moreover have "\<forall>j. Suc j < Suc i \<longrightarrow> datay (f (pool s ! j)) =
                  Some (to_number (datay (f (pool s ! Suc j))) - MARGIN * 2 - height (f (pool s ! j)))"
  proof (intro allI impI)
    fix j assume "Suc j < Suc i"
    then consider "Suc j < i" | "Suc j = i" by linarith
    then show "datay (f (pool s ! j)) =
        Some (to_number (datay (f (pool s ! Suc j))) - MARGIN * 2 - height (f (pool s ! j)))"
    proof cases
      case 1 then show ?thesis using rel by simp
    next
      case 2
      then have "0 < i" "i - 1 = j" by simp_all
      then show ?thesis using top fi hgt 2 by auto
    qed
  qed
  moreover have "0 < Suc i \<longrightarrow> datay (f (pool s ! (Suc i - 1))) =
                  Some (to_number (datay (elems s (pool s ! Suc i))) - MARGIN * 2
                        - height (elems s (pool s ! (Suc i - 1))))"
    using fi by (simp add: g_def yi_def)
  ultimately show ?case by blast
qed

lemma down_step_frame: "\<exists>f. snd (down_step i s) = s\<lparr>elems := f\<rparr>"
proof -
  have triv: "\<exists>f. s = s\<lparr>elems := f\<rparr>" by (rule exI[of _ "elems s"]) simp
  show ?thesis
    using triv
    by (cases "array_at (pool s) (int i - 1)"; cases "index (pool s) i")
       (auto simp: down_step_def getBoundingClientRect_def set_transform_def data_y_def Let_def
          split: option.splits)
qed

lemma top_step_frame: "\<exists>f. snd (top_step i s) = s\<lparr>elems := f\<rparr>"
proof (cases "i < length (pool s)")
  case True
  show ?thesis using top_step_ok[OF True] by auto
next
  case False
  then have "top_step i s = (Some TypeError, s\<lparr>elems := elems s\<rparr>)"
    using top_step_err[of s i] by simp
  then show ?thesis by (metis snd_conv)
qed

lemma for_loop_frame:
  assumes "\<And>i (s::'d state). \<exists>f. snd (body i s) = s\<lparr>elems := f\<rparr>"
  shows "\<exists>f. snd (for_loop body js s) = s\<lparr>elems := f\<rparr>"
proof (induction js arbitrary: s)
  case Nil
  have "snd (for_loop body [] s) = s\<lparr>elems := elems s\<rparr>" by simp
  then show ?case by blast
next
  case (Cons i js)
  obtain f where f: "snd (body i s) = s\<lparr>elems := f\<rparr>" using assms by blast
  obtain e where b: "body i s = (e, s\<lparr>elems := f\<rparr>)" using f by (cases "body i s") simp
  show ?case
  proof (cases e)
    case None
    from Cons[of "s\<lparr>elems := f\<rparr>"] obtain f' where
      "snd (for_loop body js (s\<lparr>elems := f\<rparr>)) = s\<lparr>elems := f'\<rparr>" by auto
    then show ?thesis using b None by auto
  next
    case (Some a)
    then show ?thesis using b by auto
  qed
qed

lemma layout_down:
  assumes "distinct (pool s)" and "pool s \<noteq> []"
  shows "\<exists>f. updateElementsPosition Down s =
             (None, s\<lparr>elems := f, topObserver := Some (translateY (Some (first_pos s))),
                bottomObserver := Some (translateY (Some (first_pos s + extent s)))\<rparr>)
           \<and> (\<forall>j<length (pool s). datay (f (pool s ! j)) = Some (down_pos s j))
           \<and> (\<forall>v. v \<notin> set (pool s) \<longrightarrow> f v = elems s v)
           \<and> (\<forall>v. height (f v) = height (elems s v))
           \<and> (\<forall>v. content (f v) = content (elems s v))"
proof -
  from down_loop[OF assms(1), of "length (pool s)"] obtain f where
    run: "for_loop down_step [0..<length (pool s)] s = (None, s\<lparr>elems := f\<rparr>)"
    and pos: "\<forall>j<length (pool s). datay (f (pool s ! j)) = Some (down_pos s j)"
    and frame: "\<forall>v. v \<notin> set (pool s) \<longrightarrow> f v = elems s v"
    and hgt: "\<forall>v. height (f v) = height (elems s v)"
    and cnt: "\<forall>v. content (f v) = content (elems s v)"
    by auto
  have len: "0 < length (pool s)" using assms(2) by simp
  have l: "last (pool s) = pool s ! (length (pool s) - 1)"
    using assms(2) by (simp add: last_conv_nth)
  have "down_pos s (length (pool s) - 1) + MARGIN * 2 + height (elems s (pool s ! (length (pool s) - 1)))
      = down_pos s (Suc (length (pool s) - 1))"
    by (simp add: down_pos_def)
  also have "\<dots> = first_pos s + extent s" using len by (simp add: down_pos_def extent_def)
  finally have bot: "down_pos s (length (pool s) - 1) + MARGIN * 2
      + height (elems s (pool s ! (length (pool s) - 1))) = first_pos s + extent s" .
  have p0: "datay (f (pool s ! 0)) = Some (first_pos s)"
    using pos len by (simp add: down_pos_def)
  have pl: "datay (f (last (pool s))) = Some (down_pos s (length (pool s) - 1))"
    using pos len l by simp
  have "updateElementsPosition Down s =
             (None, s\<lparr>elems := f, topObserver := Some (translateY (Some (first_pos s))),
                bottomObserver := Some (translateY (Some (first_pos s + extent s)))\<rparr>)"
    using assms(2) len p0 pl hgt bot l
    by (simp add: updateElementsPosition_def run array_at_last index_Some
        getBoundingClientRect_def to_number_def Let_def)
  then show ?thesis using pos frame hgt cnt by blast
qed

lemma layout_frame:
  "\<exists>f t b. snd (updateElementsPosition dir s) = s\<lparr>elems := f, topObserver := t, bottomObserver := b\<rparr>"
proof -
  let ?loop = "(case dir of
              Down \<Rightarrow> for_loop down_step [0..<length (pool s)] s
            | Top \<Rightarrow> for_loop top_step (top_indices (pageSize (props s))) s)"
  have "\<exists>f. snd ?loop = s\<lparr>elems := f\<rparr>"
    by (cases dir) (simp_all add: for_loop_frame down_step_frame top_step_frame)
  then obtain f e where loop: "?loop = (e, s\<lparr>elems := f\<rparr>)"
    by (cases ?loop) auto
  have triv: "s\<lparr>elems := f\<rparr> = s\<lparr>elems := f, topObserver := topObserver s, bottomObserver := bottomObserver s\<rparr>"
    by simp
  show ?thesis
  proof (cases "e = None \<and> pool s \<noteq> []")
    case True
    then show ?thesis
      unfolding updateElementsPosition_def loop
      by (auto simp: array_at_last getBoundingClientRect_def Let_def)
  next
    case False
    then have "snd (updateElementsPosition dir s) = s\<lparr>elems := f\<rparr>"
      unfolding updateElementsPosition_def loop
      by (cases e) (auto simp: array_at_last getBoundingClientRect_def Let_def)
    then show ?thesis using triv by metis
  qed
qed

lemma layout_sentinels:
  assumes "updateElementsPosition dir s = (None, s')"
  shows "pool s' = pool s \<and> pool s \<noteq> []
    \<and> topObserver s' = Some (translateY (datay (elems s' (hd (pool s')))))
    \<and> bottomObserver s' = Some (translateY (Some (to_number (datay (elems s' (last (pool s'))))
          + height (elems s' (last (pool s'))) + 2 * MARGIN)))"
proof -
  let ?loop = "(case dir of
              Down \<Rightarrow> for_loop down_step [0..<length (pool s)] s
            | Top \<Rightarrow> for_loop top_step (top_indices (pageSize (props s))) s)"
  have "\<exists>f. snd ?loop = s\<lparr>elems := f\<rparr>"
    by (cases dir) (simp_all add: for_loop_frame down_step_frame top_step_frame)
  then obtain f e where loop: "?loop = (e, s\<lparr>elems := f\<rparr>)"
    by (cases ?loop) auto
  have e: "e = None" using assms unfolding updateElementsPosition_def loop
    by (cases e) auto
  have ne: "pool s \<noteq> []" using assms unfolding updateElementsPosition_def loop e
    by (auto simp: array_at_last getBoundingClientRect_def Let_def)
  have "s' = s\<lparr>elems := f, topObserver := Some (translateY (datay (f (hd (pool s))))),
      bottomObserver := Some (translateY (Some (to_number (datay (f (last (pool s))))
          + MARGIN * 2 + height (f (last (pool s))))))\<rparr>"
    using assms ne unfolding updateElementsPosition_def loop e
    by (auto simp: array_at_last index_Some hd_conv_nth getBoundingClientRect_def Let_def)
  then show ?thesis using ne by simp
qed

lemma down_step_content: "content (elems (snd (down_step i s)) v) = content (elems s v)"
  by (cases "array_at (pool s) (int i - 1)"; cases "index (pool s) i")
     (auto simp: down_step_def getBoundingClientRect_def set_transform_def data_y_def Let_def
        split: option.splits)

lemma top_step_content: "content (elems (snd (top_step i s)) v) = content (elems s v)"
proof (cases "i < length (pool s)")
  case True
  show ?thesis using top_step_ok[OF True] by simp
next
  case False
  then show ?thesis using top_step_err[of s i] by simp
qed

lemma for_loop_content:
  assumes "\<And>i (s::'d state) v. content (elems (snd (body i s)) v) = content (elems s v)"
  shows "content (elems (snd (for_loop body js s)) v) = content (elems s v)"
proof (induction js arbitrary: s)
  case Nil
  show ?case by simp
next
  case (Cons i js)
  obtain e s1 where b: "body i s = (e, s1)" by (cases "body i s") auto
  have c: "content (elems s1 v) = content (elems s v)" using assms[of i s v] b by simp
  show ?case
  proof (cases e)
    case None
    then show ?thesis using b c Cons[of s1] by simp
  next
    case (Some a)
    then show ?thesis using b c by simp
  qed
qed

lemma layout_content:
  "content (elems (snd (updateElementsPosition dir s)) v) = content (elems s v)"
proof -
  let ?loop = "(case dir of
              Down \<Rightarrow> for_loop down_step [0..<length (pool s)] s
            | Top \<Rightarrow> for_loop top_step (top_indices (pageSize (props s))) s)"
  have c: "content (elems (snd ?loop) v) = content (elems s v)"
    by (cases dir) (simp_all add: for_loop_content down_step_content top_step_content)
  obtain e s1 where loop: "?loop = (e, s1)" by (cases ?loop) auto
  have "content (elems (snd (updateElementsPosition dir s)) v) = content (elems s1 v)"
    unfolding updateElementsPosition_def loop
    by (cases e) (auto simp: Let_def split: sum.splits)
  then show ?thesis using c loop by simp
qed

lemma bindAll_frame: "\<exists>g l. bindAll ut es ds s = s\<lparr>elems := g, bindLog := l\<rparr>"
proof (induction ut es ds s rule: bindAll.induct)
  case (1 ut es s)
  have "bindAll ut es [] s = s\<lparr>elems := elems s, bindLog := bindLog s\<rparr>" by simp
  then show ?case by blast
next
  case (2 ut d ds s)
  then show ?case by auto
next
  case (3 ut e es d ds s)
  then show ?case by auto
qed

lemma bindAll_exact:
  assumes "length es = length ds"
  shows "\<exists>g. bindAll ut es ds s = s\<lparr>elems := g, bindLog := bindLog s @ zip ds (map Some es)\<rparr>
           \<and> (\<forall>v. v \<notin> set es \<longrightarrow> g v = elems s v)
           \<and> (distinct es \<longrightarrow> (\<forall>i<length es. g (es ! i) = ut (ds ! i) (elems s (es ! i))))"
  using assms
proof (induction es ds arbitrary: s rule: list_induct2)
  case Nil
  have "bindAll ut [] [] s = s\<lparr>elems := elems s, bindLog := bindLog s @ zip [] (map Some [])\<rparr>"
    by simp
  then show ?case by (intro exI[of _ "elems s"]) simp
next
  case (Cons e es d ds)
  let ?s1 = "s\<lparr>elems := (elems s)(e := ut d (elems s e)), bindLog := bindLog s @ [(d, Some e)]\<rparr>"
  from Cons.IH[of ?s1] obtain g where
    g: "bindAll ut es ds ?s1 = ?s1\<lparr>elems := g, bindLog := bindLog ?s1 @ zip ds (map Some es)\<rparr>"
    and fr: "\<forall>v. v \<notin> set es \<longrightarrow> g v = elems ?s1 v"
    and bd: "distinct es \<longrightarrow> (\<forall>i<length es. g (es ! i) = ut (ds ! i) (elems ?s1 (es ! i)))"
    by blast
  have "bindAll ut (e # es) (d # ds) s =
      s\<lparr>elems := g, bindLog := bindLog s @ zip (d # ds) (map Some (e # es))\<rparr>"
    using g by simp
  moreover have "\<forall>v. v \<notin> set (e # es) \<longrightarrow> g v = elems s v" using fr by simp
  moreover have "g ((e # es) ! i) = ut ((d # ds) ! i) (elems s ((e # es) ! i))"
    if dist: "distinct (e # es)" and ilt: "i < length (e # es)" for i
  proof (cases i)
    case 0
    then show ?thesis using fr dist by simp
  next
    case (Suc j)
    then have jlt: "j < length es" using ilt by simp
    then have "es ! j \<noteq> e" using dist by auto
    then show ?thesis using bd dist jlt Suc by simp
  qed
  ultimately show ?case by blast
qed

lemma createCards_result:
  "\<exists>g. createCards gt ds s =
         ([nextId s..<nextId s + length ds],
          s\<lparr>elems := g, nextId := nextId s + length ds,
            pool := pool s @ [nextId s..<nextId s + length ds]\<rparr>)
       \<and> (\<forall>v<nextId s. g v = elems s v)"
proof (induction ds arbitrary: s)
  case Nil
  have "createCards gt [] s = ([nextId s..<nextId s + length []],
          s\<lparr>elems := elems s, nextId := nextId s + length [],
            pool := pool s @ [nextId s..<nextId s + length []]\<rparr>)" by simp
  then show ?case by blast
next
  case (Cons d ds)
  let ?s1 = "s\<lparr>elems := (elems s)(nextId s := gt d), nextId := Suc (nextId s),
                 pool := pool s @ [nextId s]\<rparr>"
  from Cons[of ?s1] obtain g where
    g: "createCards gt ds ?s1 = ([nextId ?s1..<nextId ?s1 + length ds],
          ?s1\<lparr>elems := g, nextId := nextId ?s1 + length ds,
            pool := pool ?s1 @ [nextId ?s1..<nextId ?s1 + length ds]\<rparr>)"
    and fr: "\<forall>v<nextId ?s1. g v = elems ?s1 v" by blast
  have ids: "[nextId s..<nextId s + length (d # ds)] =
      nextId s # [Suc (nextId s)..<Suc (nextId s) + length ds]"
    using upt_conv_Cons[of "nextId s" "nextId s + length (d # ds)"] by simp
  have "createCards gt (d # ds) s = ([nextId s..<nextId s + length (d # ds)],
          s\<lparr>elems := g, nextId := nextId s + length (d # ds),
            pool := pool s @ [nextId s..<nextId s + length (d # ds)]\<rparr>)"
    using g unfolding ids by (simp add: Let_def del: upt_Suc)
  moreover have "\<forall>v<nextId s. g v = elems s v" using fr by simp
  ultimately show ?case by blast
qed

lemma handleBottom_append:
  assumes "getPage (props s) = Some gp" and "getTemplate (props s) = Some gt"
    and "limit s = Some l" and "int (length (pool s)) < l"
  shows "\<exists>f t b. snd (handleBottomObserver s) =
      s\<lparr>end_cursor := end_cursor s + 1,
        pool := pool s @ [nextId s..<nextId s + length (gp (end_cursor s))],
        elems := f,
        nextId := nextId s + length (gp (end_cursor s)),
        listChildren := listChildren s @ [nextId s..<nextId s + length (gp (end_cursor s))],
        topObserver := t, bottomObserver := b,
        fetchLog := fetchLog s @ [end_cursor s]\<rparr>"
proof -
  let ?data = "gp (end_cursor s)"
  let ?s2 = "s\<lparr>end_cursor := end_cursor s + 1, fetchLog := fetchLog s @ [end_cursor s]\<rparr>"
  let ?ids = "[nextId s..<nextId s + length ?data]"
  obtain g where g: "createCards gt ?data ?s2 =
      (?ids, ?s2\<lparr>elems := g, nextId := nextId s + length ?data, pool := pool s @ ?ids\<rparr>)"
    using createCards_result[of gt ?data ?s2] by auto
  let ?s3 = "?s2\<lparr>elems := g, nextId := nextId s + length ?data, pool := pool s @ ?ids,
      listChildren := listChildren s @ ?ids\<rparr>"
  have s3: "?s3 = ?s2" if "?data = []"
    using that g by simp
  have h: "handleBottomObserver s = updateElementsPosition Down ?s3"
  proof (cases "?data = []")
    case True
    then show ?thesis using assms s3
      by (simp add: handleBottomObserver_def Let_def)
  next
    case False
    then show ?thesis using assms g
      by (simp add: handleBottomObserver_def Let_def)
  qed
  from layout_frame[of Down ?s3] obtain f t b where
    "snd (updateElementsPosition Down ?s3) = ?s3\<lparr>elems := f, topObserver := t, bottomObserver := b\<rparr>"
    by blast
  then have "snd (handleBottomObserver s) =
      s\<lparr>end_cursor := end_cursor s + 1,
        pool := pool s @ ?ids, elems := f, nextId := nextId s + length ?data,
        listChildren := listChildren s @ ?ids,
        topObserver := t, bottomObserver := b,
        fetchLog := fetchLog s @ [end_cursor s]\<rparr>"
    using h by simp
  then show ?thesis by blast
qed

lemma handleBottom_recycle:
  assumes "getPage (props s) = Some gp" and "updateTemplate (props s) = Some ut"
    and "pageSize (props s) = Some n" and "0 \<le> n"
    and "limit s = Some l" and "\<not> int (length (pool s)) < l"
    and "nat n \<le> length (pool s)" and "length (gp (end_cursor s)) = nat n"
  shows "\<exists>f t b. snd (handleBottomObserver s) =
      s\<lparr>start := start s + 1, end_cursor := end_cursor s + 1,
        pool := drop (nat n) (pool s) @ take (nat n) (pool s),
        elems := f, topObserver := t, bottomObserver := b,
        fetchLog := fetchLog s @ [end_cursor s],
        bindLog := bindLog s @ zip (gp (end_cursor s)) (map Some (take (nat n) (pool s)))\<rparr>
    \<and> (\<forall>v. v \<notin> set (take (nat n) (pool s)) \<longrightarrow> content (f v) = content (elems s v))
    \<and> (distinct (pool s) \<longrightarrow>
         (\<forall>i<nat n. content (f (pool s ! i)) =
            content (ut (gp (end_cursor s) ! i) (elems s (pool s ! i)))))"
proof -
  let ?data = "gp (end_cursor s)"
  let ?rec = "take (nat n) (pool s)"
  let ?s3 = "s\<lparr>end_cursor := end_cursor s + 1, fetchLog := fetchLog s @ [end_cursor s],
      pool := drop (nat n) (pool s) @ ?rec\<rparr>"
  have len: "length ?rec = length ?data" using assms(7,8) by simp
  from bindAll_exact[OF len, of ut ?s3] obtain g where
    g: "bindAll ut ?rec ?data ?s3 = ?s3\<lparr>elems := g, bindLog := bindLog s @ zip ?data (map Some ?rec)\<rparr>"
    and gfr: "\<forall>v. v \<notin> set ?rec \<longrightarrow> g v = elems s v"
    and gbd: "distinct ?rec \<longrightarrow> (\<forall>i<length ?rec. g (?rec ! i) = ut (?data ! i) (elems s (?rec ! i)))"
    by auto
  let ?s4 = "?s3\<lparr>elems := g, bindLog := bindLog s @ zip ?data (map Some ?rec)\<rparr>"
  have s4: "?s4 = ?s3" if "?data = []"
    using that g by simp
  have ud: "updateData ?rec ?data ?s3 = (None, ?s4)"
  proof (cases "?data = []")
    case True
    then show ?thesis using s4 by (simp add: updateData_def)
  next
    case False
    then show ?thesis using assms(2) g by (simp add: updateData_def)
  qed
  have h: "handleBottomObserver s = updateElementsPosition Down (?s4\<lparr>start := start s + 1\<rparr>)"
    using assms(1,3,4,5,6) ud
    by (simp add: handleBottomObserver_def Let_def slice_take slice_drop)
  from layout_frame[of Down "?s4\<lparr>start := start s + 1\<rparr>"] obtain f t b where
    lay: "snd (updateElementsPosition Down (?s4\<lparr>start := start s + 1\<rparr>)) =
       ?s4\<lparr>start := start s + 1, elems := f, topObserver := t, bottomObserver := b\<rparr>"
    by auto
  have fg: "content (f v) = content (g v)" for v
    using layout_content[of Down "?s4\<lparr>start := start s + 1\<rparr>" v] unfolding lay by simp
  have res: "snd (handleBottomObserver s) =
      s\<lparr>start := start s + 1, end_cursor := end_cursor s + 1,
        pool := drop (nat n) (pool s) @ ?rec,
        elems := f, topObserver := t, bottomObserver := b,
        fetchLog := fetchLog s @ [end_cursor s],
        bindLog := bindLog s @ zip ?data (map Some ?rec)\<rparr>"
    using h lay by simp
  have keep: "\<forall>v. v \<notin> set ?rec \<longrightarrow> content (f v) = content (elems s v)"
    using fg gfr by simp
  have bound: "\<forall>i<nat n. content (f (pool s ! i)) = content (ut (?data ! i) (elems s (pool s ! i)))"
    if "distinct (pool s)"
  proof -
    have "distinct ?rec" using that by simp
    then have "\<forall>i<length ?rec. g (?rec ! i) = ut (?data ! i) (elems s (?rec ! i))"
      using gbd by simp
    then show ?thesis using fg assms(7) by simp
  qed
  show ?thesis using res keep bound by blast
qed

lemma handleTop_recycle:
  assumes "getPage (props s) = Some gp" and "updateTemplate (props s) = Some ut"
    and "pageSize (props s) = Some n" and "0 \<le> n"
    and "length (gp (start s - 1)) = length (pool s) - nat n"
  shows "\<exists>f t b. snd (handleTopObserver s) =
      s\<lparr>start := start s - 1, end_cursor := end_cursor s - 1,
        pool := drop (nat n) (pool s) @ take (nat n) (pool s),
        elems := f, topObserver := t, bottomObserver := b,
        fetchLog := fetchLog s @ [start s - 1],
        bindLog := bindLog s @ zip (gp (start s - 1)) (map Some (drop (nat n) (pool s)))\<rparr>
    \<and> (\<forall>v. v \<notin> set (drop (nat n) (pool s)) \<longrightarrow> content (f v) = content (elems s v))
    \<and> (distinct (pool s) \<longrightarrow>
         (\<forall>i<length (pool s) - nat n. content (f (pool s ! (nat n + i))) =
            content (ut (gp (start s - 1) ! i) (elems s (pool s ! (nat n + i))))))"
proof -
  let ?data = "gp (start s - 1)"
  let ?rec = "drop (nat n) (pool s)"
  let ?s3 = "s\<lparr>start := start s - 1, end_cursor := end_cursor s - 1,
      fetchLog := fetchLog s @ [start s - 1], pool := ?rec @ take (nat n) (pool s)\<rparr>"
  have len: "length ?rec = length ?data" using assms(5) by simp
  from bindAll_exact[OF len, of ut ?s3] obtain g where
    g: "bindAll ut ?rec ?data ?s3 = ?s3\<lparr>elems := g, bindLog := bindLog s @ zip ?data (map Some ?rec)\<rparr>"
    and gfr: "\<forall>v. v \<notin> set ?rec \<longrightarrow> g v = elems s v"
    and gbd: "distinct ?rec \<longrightarrow> (\<forall>i<length ?rec. g (?rec ! i) = ut (?data ! i) (elems s (?rec ! i)))"
    by auto
  let ?s4 = "?s3\<lparr>elems := g, bindLog := bindLog s @ zip ?data (map Some ?rec)\<rparr>"
  have s4: "?s4 = ?s3" if "?data = []"
    using that g by simp
  have ud: "updateData ?rec ?data ?s3 = (None, ?s4)"
  proof (cases "?data = []")
    case True
    then show ?thesis using s4 by (simp add: updateData_def)
  next
    case False
    then show ?thesis using assms(2) g by (simp add: updateData_def)
  qed
  have h: "handleTopObserver s = updateElementsPosition Top ?s4"
    using assms(1,3,4) ud
    by (simp add: handleTopObserver_def Let_def slice_take slice_drop)
  from layout_frame[of Top ?s4] obtain f t b where
    lay: "snd (updateElementsPosition Top ?s4) =
       ?s4\<lparr>elems := f, topObserver := t, bottomObserver := b\<rparr>"
    by auto
  have fg: "content (f v) = content (g v)" for v
    using layout_content[of Top ?s4 v] unfolding lay by simp
  have res: "snd (handleTopObserver s) =
      s\<lparr>start := start s - 1, end_cursor := end_cursor s - 1,
        pool := ?rec @ take (nat n) (pool s),
        elems := f, topObserver := t, bottomObserver := b,
        fetchLog := fetchLog s @ [start s - 1],
        bindLog := bindLog s @ zip ?data (map Some ?rec)\<rparr>"
    using h lay by simp
  have keep: "\<forall>v. v \<notin> set ?rec \<longrightarrow> content (f v) = content (elems s v)"
    using fg gfr by simp
  have bound: "\<forall>i<length (pool s) - nat n. content (f (pool s ! (nat n + i))) =
      content (ut (?data ! i) (elems s (pool s ! (nat n + i))))"
    if "distinct (pool s)"
  proof -
    have "distinct ?rec" using that by simp
    then have "\<forall>i<length ?rec. g (?rec ! i) = ut (?data ! i) (elems s (?rec ! i))"
      using gbd by simp
    then show ?thesis using fg by simp
  qed
  show ?thesis using res keep bound by blast
qed

lemma mounted_constructor:
  "pageSize p = Some n \<Longrightarrow> mounted p n (constructor doc p)"
  by (simp add: mounted_def cursor_inv_def constructor_def)

lemma full_pool:
  assumes "cursor_inv n s" and "0 \<le> n" and "\<not> int (length (pool s)) < n * 2"
  shows "int (length (pool s)) = 2 * n"
proof (cases "n = 0")
  case True
  then show ?thesis using assms by (simp add: cursor_inv_def)
next
  case False
  then have pos: "0 < n" using assms(2) by simp
  have le: "end_cursor s - start s \<le> 2" and eq: "int (length (pool s)) = n * (end_cursor s - start s)"
    using assms(1) by (simp_all add: cursor_inv_def)
  have "n * (end_cursor s - start s) \<le> n * 2" using le pos by (simp add: mult_left_mono)
  then show ?thesis using assms(3) eq by simp
qed

lemma mounted_bottom:
  assumes m: "mounted p n s" and p: "p = \<lparr>getPage = Some gp, getTemplate = Some gt,
      updateTemplate = Some ut, pageSize = Some n\<rparr>"
    and exact: "\<forall>k. length (gp k) = nat n" and n0: "0 \<le> n"
  shows "mounted p n (snd (handleBottomObserver s))"
proof (cases "int (length (pool s)) < n * 2")
  case True
  have ps: "props s = p" and lim: "limit s = Some (n * 2)" and ci: "cursor_inv n s"
    using m by (simp_all add: mounted_def)
  from handleBottom_append[of s gp gt "n * 2"] ps p lim True obtain f t b where
    s': "snd (handleBottomObserver s) =
      s\<lparr>end_cursor := end_cursor s + 1,
        pool := pool s @ [nextId s..<nextId s + length (gp (end_cursor s))],
        elems := f,
        nextId := nextId s + length (gp (end_cursor s)),
        listChildren := listChildren s @ [nextId s..<nextId s + length (gp (end_cursor s))],
        topObserver := t, bottomObserver := b,
        fetchLog := fetchLog s @ [end_cursor s]\<rparr>"
    by auto
  have len: "length (gp (end_cursor s)) = nat n" using exact by simp
  have st0: "start s = 0" using ci True by (auto simp: cursor_inv_def)
  have d: "end_cursor s - start s < 2"
  proof (rule ccontr)
    assume "\<not> end_cursor s - start s < 2"
    then have "end_cursor s - start s = 2" using ci by (simp add: cursor_inv_def)
    then show False using ci True by (simp add: cursor_inv_def)
  qed
  have "cursor_inv n (snd (handleBottomObserver s))"
    unfolding s' using ci n0 d st0 len
    by (auto simp: cursor_inv_def algebra_simps)
  then show ?thesis unfolding mounted_def using ps lim s' by simp
next
  case False
  have ps: "props s = p" and lim: "limit s = Some (n * 2)" and ci: "cursor_inv n s"
    using m by (simp_all add: mounted_def)
  have full: "int (length (pool s)) = 2 * n" using full_pool[OF ci n0 False] .
  then have le: "nat n \<le> length (pool s)" using n0 by simp
  have len: "length (gp (end_cursor s)) = nat n" using exact by simp
  from handleBottom_recycle[of s gp ut n "n * 2", OF _ _ _ n0 lim False le len] ps p
  obtain f t b where
    s': "snd (handleBottomObserver s) =
      s\<lparr>start := start s + 1, end_cursor := end_cursor s + 1,
        pool := drop (nat n) (pool s) @ take (nat n) (pool s),
        elems := f, topObserver := t, bottomObserver := b,
        fetchLog := fetchLog s @ [end_cursor s],
        bindLog := bindLog s @ zip (gp (end_cursor s)) (map Some (take (nat n) (pool s)))\<rparr>"
    by auto
  have dist: "distinct (drop (nat n) (pool s) @ take (nat n) (pool s))"
    using ci by (metis cursor_inv_def append_take_drop_id distinct_append inf_commute)
  have sub: "set (drop (nat n) (pool s)) \<union> set (take (nat n) (pool s)) = set (pool s)"
    by (metis append_take_drop_id set_append sup_commute)
  have "cursor_inv n (snd (handleBottomObserver s))"
    unfolding s' using ci full dist sub le
    by (auto simp: cursor_inv_def)
  then show ?thesis unfolding mounted_def using ps lim s' by simp
qed

lemma mounted_top:
  assumes m: "mounted p n s" and p: "p = \<lparr>getPage = Some gp, getTemplate = Some gt,
      updateTemplate = Some ut, pageSize = Some n\<rparr>"
    and exact: "\<forall>k. length (gp k) = nat n" and n0: "0 \<le> n" and st: "0 < start s"
  shows "mounted p n (snd (handleTopObserver s))
    \<and> (\<exists>f t b. snd (handleTopObserver s) =
      s\<lparr>start := start s - 1, end_cursor := end_cursor s - 1,
        pool := drop (nat n) (pool s) @ take (nat n) (pool s),
        elems := f, topObserver := t, bottomObserver := b,
        fetchLog := fetchLog s @ [start s - 1],
        bindLog := bindLog s @ zip (gp (start s - 1)) (map Some (drop (nat n) (pool s)))\<rparr>
      \<and> (\<forall>v. v \<notin> set (drop (nat n) (pool s)) \<longrightarrow> content (f v) = content (elems s v))
      \<and> (\<forall>i<nat n. content (f (pool s ! (nat n + i))) =
            content (ut (gp (start s - 1) ! i) (elems s (pool s ! (nat n + i))))))"
proof -
  have ps: "props s = p" and lim: "limit s = Some (n * 2)" and ci: "cursor_inv n s"
    using m by (simp_all add: mounted_def)
  have full: "int (length (pool s)) = 2 * n" using ci st unfolding cursor_inv_def by blast
  then have le: "nat n \<le> length (pool s)" using n0 by simp
  have len: "length (gp (start s - 1)) = length (pool s) - nat n" using exact full n0 by simp
  have rest: "length (pool s) - nat n = nat n" using full n0 by linarith
  have dp: "distinct (pool s)" using ci by (simp add: cursor_inv_def)
  have gpp: "getPage (props s) = Some gp" and utp: "updateTemplate (props s) = Some ut"
    and psp: "pageSize (props s) = Some n"
    using ps p by simp_all
  from handleTop_recycle[OF gpp utp psp n0 len]
  obtain f t b where
    s': "snd (handleTopObserver s) =
      s\<lparr>start := start s - 1, end_cursor := end_cursor s - 1,
        pool := drop (nat n) (pool s) @ take (nat n) (pool s),
        elems := f, topObserver := t, bottomObserver := b,
        fetchLog := fetchLog s @ [start s - 1],
        bindLog := bindLog s @ zip (gp (start s - 1)) (map Some (drop (nat n) (pool s)))\<rparr>"
    and keep: "\<forall>v. v \<notin> set (drop (nat n) (pool s)) \<longrightarrow> content (f v) = content (elems s v)"
    and bound0: "distinct (pool s) \<longrightarrow>
         (\<forall>i<length (pool s) - nat n. content (f (pool s ! (nat n + i))) =
            content (ut (gp (start s - 1) ! i) (elems s (pool s ! (nat n + i)))))"
    by blast
  have bound: "\<forall>i<nat n. content (f (pool s ! (nat n + i))) =
            content (ut (gp (start s - 1) ! i) (elems s (pool s ! (nat n + i))))"
    using bound0 dp rest by simp
  have dist: "distinct (drop (nat n) (pool s) @ take (nat n) (pool s))"
    using ci by (metis cursor_inv_def append_take_drop_id distinct_append inf_commute)
  have sub: "set (drop (nat n) (pool s)) \<union> set (take (nat n) (pool s)) = set (pool s)"
    by (metis append_take_drop_id set_append sup_commute)
  have "cursor_inv n (snd (handleTopObserver s))"
    unfolding s' using ci full dist sub le st
    by (auto simp: cursor_inv_def)
  then have "mounted p n (snd (handleTopObserver s))"
    unfolding mounted_def using ps lim s' by simp
  then show ?thesis using s' keep bound by blast
qed

lemma mounted_entry:
  assumes "mounted p n s" and "p = \<lparr>getPage = Some gp, getTemplate = Some gt,
      updateTemplate = Some ut, pageSize = Some n\<rparr>"
    and "\<forall>k. length (gp k) = nat n" and "0 \<le> n"
  shows "mounted p n (handleEntry e s)"
  using assms mounted_bottom[OF assms] mounted_top[OF assms]
  by (simp add: handleEntry_def)

lemma mounted_run:
  assumes "mounted p n s" and "p = \<lparr>getPage = Some gp, getTemplate = Some gt,
      updateTemplate = Some ut, pageSize = Some n\<rparr>"
    and "\<forall>k. length (gp k) = nat n" and "0 \<le> n"
  shows "mounted p n (handleIntersectionObserver es s)"
  using assms(1)
proof (induction es arbitrary: s)
  case Nil
  then show ?case by simp
next
  case (Cons e es)
  have "mounted p n (handleEntry e s)"
    using mounted_entry[OF Cons.prems assms(2,3,4)] .
  then show ?case using Cons.IH by simp
qed

lemma down_pos_last:
  assumes "pool s \<noteq> []"
  shows "down_pos s (length (pool s) - 1) + MARGIN * 2 + height (elems s (last (pool s)))
    = first_pos s + extent s"
proof -
  have len: "0 < length (pool s)" using assms by simp
  have l: "last (pool s) = pool s ! (length (pool s) - 1)"
    using assms by (simp add: last_conv_nth)
  have "down_pos s (length (pool s) - 1) + MARGIN * 2 + height (elems s (pool s ! (length (pool s) - 1)))
      = down_pos s (Suc (length (pool s) - 1))"
    by (simp add: down_pos_def)
  also have "\<dots> = first_pos s + extent s" using len by (simp add: down_pos_def extent_def)
  finally show ?thesis using l by simp
qed

lemma extent_positive:
  assumes "pool s \<noteq> []" and "\<forall>v\<in>set (pool s). 0 \<le> height (elems s v)"
  shows "0 < extent s"
proof -
  have "0 < height (elems s (pool s ! m)) + MARGIN * 2" if "m \<in> {..<length (pool s)}" for m
  proof -
    have "pool s ! m \<in> set (pool s)" using that by simp
    then have "0 \<le> height (elems s (pool s ! m))" using assms(2) by blast
    then show ?thesis by (simp add: MARGIN_def)
  qed
  moreover have "{..<length (pool s)} \<noteq> {}" using assms(1) by auto
  ultimately show ?thesis unfolding extent_def by (intro sum_pos) auto
qed

section \<open>The claims\<close>

subsection \<open>Recycling at the bottom\<close>

text \<open>
  Claim C1. A bottom trigger handled while the pool holds \<open>2 * pageSize\<close> cards, whose
  fetch returns exactly \<open>pageSize\<close> records, keeps the length of the pool; the calls of
  \<open>updateTemplate\<close> it makes are exactly those binding the fetched records, in order, to
  the first \<open>pageSize\<close> cards of the pool as it was; the new pool is the remaining cards
  followed by the recycled ones; \<open>start\<close> and \<open>end\<close> both grow by one. The page asked
  for is \<open>end\<close>, and no card is created. When the cards of the pool are distinct, the
  content of the recycled card at index \<open>i\<close> is what \<open>updateTemplate\<close> makes of record
  \<open>i\<close>; the content of every other card is as before.
\<close>

theorem bottom_recycle_at_limit:
  assumes "getPage (props s) = Some gp" and "updateTemplate (props s) = Some ut"
    and "pageSize (props s) = Some n" and "limit s = Some (n * 2)"
    and "int (length (pool s)) = 2 * n" and "length (gp (end_cursor s)) = nat n"
  shows "length (pool (snd (handleBottomObserver s))) = length (pool s)
    \<and> length (take (nat n) (pool s)) = nat n
    \<and> bindLog (snd (handleBottomObserver s)) =
        bindLog s @ zip (gp (end_cursor s)) (map Some (take (nat n) (pool s)))
    \<and> pool (snd (handleBottomObserver s)) = drop (nat n) (pool s) @ take (nat n) (pool s)
    \<and> start (snd (handleBottomObserver s)) = start s + 1
    \<and> end_cursor (snd (handleBottomObserver s)) = end_cursor s + 1
    \<and> fetchLog (snd (handleBottomObserver s)) = fetchLog s @ [end_cursor s]
    \<and> nextId (snd (handleBottomObserver s)) = nextId s
    \<and> (distinct (pool s) \<longrightarrow>
         (\<forall>i<nat n. content (elems (snd (handleBottomObserver s)) (pool s ! i)) =
            content (ut (gp (end_cursor s) ! i) (elems s (pool s ! i)))))
    \<and> (\<forall>v. v \<notin> set (take (nat n) (pool s)) \<longrightarrow>
          content (elems (snd (handleBottomObserver s)) v) = content (elems s v))"
proof -
  have n0: "0 \<le> n" using assms(5) by linarith
  have le: "nat n \<le> length (pool s)" using assms(5) n0 by linarith
  have nl: "\<not> int (length (pool s)) < n * 2" using assms(5) by simp
  from handleBottom_recycle[OF assms(1,2,3) n0 assms(4) nl le assms(6)]
  obtain f t b where s': "snd (handleBottomObserver s) =
      s\<lparr>start := start s + 1, end_cursor := end_cursor s + 1,
        pool := drop (nat n) (pool s) @ take (nat n) (pool s),
        elems := f, topObserver := t, bottomObserver := b,
        fetchLog := fetchLog s @ [end_cursor s],
        bindLog := bindLog s @ zip (gp (end_cursor s)) (map Some (take (nat n) (pool s)))\<rparr>"
    and keep: "\<forall>v. v \<notin> set (take (nat n) (pool s)) \<longrightarrow> content (f v) = content (elems s v)"
    and bound: "distinct (pool s) \<longrightarrow>
         (\<forall>i<nat n. content (f (pool s ! i)) =
            content (ut (gp (end_cursor s) ! i) (elems s (pool s ! i))))"
    by blast
  show ?thesis unfolding s' using le keep bound by simp
qed

theorem bottom_recycle_at_limit_witness:
  "int (length (pool (after_pages 2))) = 2 * 1
   \<and> length (pool (snd (handleBottomObserver (after_pages 2)))) = 2
   \<and> bindLog (snd (handleBottomObserver (after_pages 2))) = [(2, Some 0)]
   \<and> pool (snd (handleBottomObserver (after_pages 2))) = [1, 0]
   \<and> start (snd (handleBottomObserver (after_pages 2))) = 1
   \<and> end_cursor (snd (handleBottomObserver (after_pages 2))) = 3
   \<and> content (elems (snd (handleBottomObserver (after_pages 2))) 0) = 2
   \<and> content (elems (snd (handleBottomObserver (after_pages 2))) 1) = 1"
proof -
  have h1: "getPage (props (after_pages 2)) = Some (\<lambda>k. [nat k])"
    and h2: "updateTemplate (props (after_pages 2)) = Some (\<lambda>d e. e\<lparr>content := d\<rparr>)"
    and h3: "pageSize (props (after_pages 2)) = Some 1"
    and h4: "limit (after_pages 2) = Some (1 * 2)"
    and h5: "int (length (pool (after_pages 2))) = 2 * 1"
    and h6: "length [nat (end_cursor (after_pages 2))] = nat 1"
    by (simp_all add: eval_defs)
  have st: "pool (after_pages 2) = [0, 1]" "start (after_pages 2) = 0"
    "end_cursor (after_pages 2) = 2" "bindLog (after_pages 2) = []"
    by (simp_all add: eval_defs)
  have ct: "content (elems (snd (handleBottomObserver (after_pages 2))) 0) = 2"
    "content (elems (snd (handleBottomObserver (after_pages 2))) 1) = 1"
    by (simp_all add: eval_defs)
  show ?thesis
    using bottom_recycle_at_limit[of "after_pages 2" "\<lambda>k. [nat k]" _ 1, OF h1 h2 h3 h4 h5 h6] h5 ct
    by (simp add: st)
qed

subsection \<open>Recycling at the top\<close>

text \<open>
  Claim C2. In a component whose fetches all return \<open>pageSize\<close> records, a top trigger
  handled with \<open>start > 0\<close> runs \<open>#handleTopObserver\<close>, which lowers \<open>start\<close> and \<open>end\<close> by
  one, asks for the page \<open>start - 1\<close> (the lowered \<open>start\<close>), binds the fetched records,
  in order, to the last \<open>pageSize\<close> cards of the pool as it was, and rebuilds the pool
  with those cards first and the first \<open>pageSize\<close> cards after them. The content of the
  recycled card at index \<open>pageSize + i\<close> is what \<open>updateTemplate\<close> makes of record \<open>i\<close>;
  the content of every other card is as before.
\<close>

theorem top_recycle:
  assumes "p = \<lparr>getPage = Some gp, getTemplate = Some gt, updateTemplate = Some ut,
      pageSize = Some n\<rparr>"
    and "\<forall>k. length (gp k) = nat n" and "0 \<le> n"
    and "s = handleIntersectionObserver es (constructor doc p)"
    and "0 < start s"
  shows "handleIntersectionObserver [\<lparr>target_id = ''top-observer'', isIntersecting = True\<rparr>] s
      = snd (handleTopObserver s)
    \<and> start (snd (handleTopObserver s)) = start s - 1
    \<and> end_cursor (snd (handleTopObserver s)) = end_cursor s - 1
    \<and> fetchLog (snd (handleTopObserver s)) = fetchLog s @ [start s - 1]
    \<and> length (drop (length (pool s) - nat n) (pool s)) = nat n
    \<and> bindLog (snd (handleTopObserver s)) =
        bindLog s @ zip (gp (start s - 1)) (map Some (drop (length (pool s) - nat n) (pool s)))
    \<and> pool (snd (handleTopObserver s)) =
        drop (length (pool s) - nat n) (pool s) @ take (nat n) (pool s)
    \<and> (\<forall>i<nat n. content (elems (snd (handleTopObserver s)) (pool s ! (nat n + i))) =
          content (ut (gp (start s - 1) ! i) (elems s (pool s ! (nat n + i)))))
    \<and> (\<forall>v. v \<notin> set (drop (length (pool s) - nat n) (pool s)) \<longrightarrow>
          content (elems (snd (handleTopObserver s)) v) = content (elems s v))"
proof -
  have ps: "pageSize p = Some n" using assms(1) by simp
  have m: "mounted p n s"
    unfolding assms(4)
    using mounted_run[OF mounted_constructor[OF ps] assms(1,2,3)] .
  from mounted_top[OF m assms(1,2,3,5)] obtain f t b where
    s': "snd (handleTopObserver s) =
      s\<lparr>start := start s - 1, end_cursor := end_cursor s - 1,
        pool := drop (nat n) (pool s) @ take (nat n) (pool s),
        elems := f, topObserver := t, bottomObserver := b,
        fetchLog := fetchLog s @ [start s - 1],
        bindLog := bindLog s @ zip (gp (start s - 1)) (map Some (drop (nat n) (pool s)))\<rparr>"
    and keep: "\<forall>v. v \<notin> set (drop (nat n) (pool s)) \<longrightarrow> content (f v) = content (elems s v)"
    and bound: "\<forall>i<nat n. content (f (pool s ! (nat n + i))) =
            content (ut (gp (start s - 1) ! i) (elems s (pool s ! (nat n + i))))"
    by blast
  have "int (length (pool s)) = 2 * n"
    using m assms(5) unfolding mounted_def cursor_inv_def by blast
  then have len: "length (pool s) - nat n = nat n" using assms(3) by linarith
  have guard: "handleIntersectionObserver [\<lparr>target_id = ''top-observer'', isIntersecting = True\<rparr>] s
      = snd (handleTopObserver s)"
    using assms(5) by (simp add: handleEntry_def)
  show ?thesis unfolding len using guard s' len keep bound by simp
qed

theorem top_recycle_witness:
  "0 < start (after_pages 3)
   \<and> start (snd (handleTopObserver (after_pages 3))) = 0
   \<and> end_cursor (snd (handleTopObserver (after_pages 3))) = 2
   \<and> fetchLog (snd (handleTopObserver (after_pages 3))) = [0, 1, 2, 0]
   \<and> bindLog (snd (handleTopObserver (after_pages 3))) = [(2, Some 0), (0, Some 0)]
   \<and> pool (snd (handleTopObserver (after_pages 3))) = [0, 1]
   \<and> content (elems (snd (handleTopObserver (after_pages 3))) 0) = 0
   \<and> content (elems (snd (handleTopObserver (after_pages 3))) 1) = 1"
proof -
  have h1: "one_per_page = \<lparr>getPage = Some (\<lambda>k. [nat k]),
      getTemplate = Some (\<lambda>d. \<lparr>datay = None, transform = None, height = 10, content = d\<rparr>),
      updateTemplate = Some (\<lambda>d e. e\<lparr>content := d\<rparr>), pageSize = Some 1\<rparr>"
    by (simp add: one_per_page_def)
  have h2: "\<forall>k. length [nat k] = nat 1" by simp
  have h3: "(0::int) \<le> 1" by simp
  have h4: "after_pages 3 = handleIntersectionObserver (replicate 3 bottom_entry)
      (constructor blank_document one_per_page)"
    by (simp add: after_pages_def)
  have st: "start (after_pages 3) = 1" "end_cursor (after_pages 3) = 3"
    "pool (after_pages 3) = [1, 0]" "fetchLog (after_pages 3) = [0, 1, 2]"
    "bindLog (after_pages 3) = [(2, Some 0)]"
    by (simp_all add: eval_defs)
  have h5: "0 < start (after_pages 3)" by (simp add: st)
  have ct: "content (elems (snd (handleTopObserver (after_pages 3))) 0) = 0"
    "content (elems (snd (handleTopObserver (after_pages 3))) 1) = 1"
    by (simp_all add: eval_defs)
  show ?thesis
    using top_recycle[OF h1 h2 h3 h4 h5] h5 ct
    by (simp add: st)
qed

subsection \<open>The bound on the pool\<close>

text \<open>
  Claim C3. After any sequence of notifications, in a component whose fetches all return
  \<open>pageSize\<close> records, the pool holds at most \<open>2 * pageSize = limit\<close> cards. Below the
  limit a bottom trigger appends \<open>pageSize\<close> newly created cards (their references are
  not in the pool) and rebinds none; at the limit it creates none and recycles the first
  \<open>pageSize\<close> cards of the pool.
\<close>

theorem pool_never_exceeds_limit:
  assumes "p = \<lparr>getPage = Some gp, getTemplate = Some gt, updateTemplate = Some ut,
      pageSize = Some n\<rparr>"
    and "\<forall>k. length (gp k) = nat n" and "0 \<le> n"
    and "s = handleIntersectionObserver es (constructor doc p)"
  shows "int (length (pool s)) \<le> 2 * n
    \<and> limit s = Some (2 * n)
    \<and> (\<forall>v\<in>set (pool s). v < nextId s)
    \<and> (int (length (pool s)) < 2 * n \<longrightarrow>
          pool (snd (handleBottomObserver s)) = pool s @ [nextId s..<nextId s + nat n]
          \<and> nextId (snd (handleBottomObserver s)) = nextId s + nat n
          \<and> bindLog (snd (handleBottomObserver s)) = bindLog s)
    \<and> (int (length (pool s)) = 2 * n \<longrightarrow>
          pool (snd (handleBottomObserver s)) = drop (nat n) (pool s) @ take (nat n) (pool s)
          \<and> nextId (snd (handleBottomObserver s)) = nextId s
          \<and> bindLog (snd (handleBottomObserver s)) =
              bindLog s @ zip (gp (end_cursor s)) (map Some (take (nat n) (pool s))))"
proof -
  have ps: "pageSize p = Some n" using assms(1) by simp
  have m: "mounted p n s"
    unfolding assms(4)
    using mounted_run[OF mounted_constructor[OF ps] assms(1,2,3)] .
  then have pr: "props s = p" and lim: "limit s = Some (n * 2)" and ci: "cursor_inv n s"
    by (simp_all add: mounted_def)
  have le2: "end_cursor s - start s \<le> 2" and eq: "int (length (pool s)) = n * (end_cursor s - start s)"
    and fresh: "\<forall>v\<in>set (pool s). v < nextId s"
    using ci by (simp_all add: cursor_inv_def)
  have "n * (end_cursor s - start s) \<le> n * 2" using le2 assms(3) by (simp add: mult_left_mono)
  then have bound: "int (length (pool s)) \<le> 2 * n" using eq by simp
  have len: "length (gp (end_cursor s)) = nat n" using assms(2) by simp
  have app: "pool (snd (handleBottomObserver s)) = pool s @ [nextId s..<nextId s + nat n]
          \<and> nextId (snd (handleBottomObserver s)) = nextId s + nat n
          \<and> bindLog (snd (handleBottomObserver s)) = bindLog s"
    if "int (length (pool s)) < 2 * n"
  proof -
    have lt: "int (length (pool s)) < n * 2" using that by simp
    from handleBottom_append[of s gp gt "n * 2", OF _ _ lim lt] pr assms(1)
    obtain f t b where "snd (handleBottomObserver s) =
      s\<lparr>end_cursor := end_cursor s + 1,
        pool := pool s @ [nextId s..<nextId s + length (gp (end_cursor s))],
        elems := f,
        nextId := nextId s + length (gp (end_cursor s)),
        listChildren := listChildren s @ [nextId s..<nextId s + length (gp (end_cursor s))],
        topObserver := t, bottomObserver := b,
        fetchLog := fetchLog s @ [end_cursor s]\<rparr>"
      by auto
    then show ?thesis using len by simp
  qed
  have rcy: "pool (snd (handleBottomObserver s)) = drop (nat n) (pool s) @ take (nat n) (pool s)
          \<and> nextId (snd (handleBottomObserver s)) = nextId s
          \<and> bindLog (snd (handleBottomObserver s)) =
              bindLog s @ zip (gp (end_cursor s)) (map Some (take (nat n) (pool s)))"
    if "int (length (pool s)) = 2 * n"
  proof -
    have nl: "\<not> int (length (pool s)) < n * 2" using that by simp
    have le: "nat n \<le> length (pool s)" using that assms(3) by linarith
    from handleBottom_recycle[of s gp ut n "n * 2", OF _ _ _ assms(3) lim nl le len] pr assms(1)
    obtain f t b where "snd (handleBottomObserver s) =
      s\<lparr>start := start s + 1, end_cursor := end_cursor s + 1,
        pool := drop (nat n) (pool s) @ take (nat n) (pool s),
        elems := f, topObserver := t, bottomObserver := b,
        fetchLog := fetchLog s @ [end_cursor s],
        bindLog := bindLog s @ zip (gp (end_cursor s)) (map Some (take (nat n) (pool s)))\<rparr>"
      by auto
    then show ?thesis by simp
  qed
  show ?thesis using bound lim fresh app rcy by (simp add: mult.commute)
qed

theorem pool_never_exceeds_limit_witness:
  "int (length (pool (after_pages 1))) < 2 * 1
   \<and> pool (snd (handleBottomObserver (after_pages 1))) = [0, 1]
   \<and> nextId (snd (handleBottomObserver (after_pages 1))) = 2
   \<and> int (length (pool (after_pages 2))) = 2 * 1
   \<and> pool (snd (handleBottomObserver (after_pages 2))) = [1, 0]
   \<and> nextId (snd (handleBottomObserver (after_pages 2))) = 2"
proof -
  have h1: "one_per_page = \<lparr>getPage = Some (\<lambda>k. [nat k]),
      getTemplate = Some (\<lambda>d. \<lparr>datay = None, transform = None, height = 10, content = d\<rparr>),
      updateTemplate = Some (\<lambda>d e. e\<lparr>content := d\<rparr>), pageSize = Some 1\<rparr>"
    by (simp add: one_per_page_def)
  have h2: "\<forall>k. length [nat k] = nat 1" by simp
  have h3: "(0::int) \<le> 1" by simp
  have a1: "after_pages 1 = handleIntersectionObserver (replicate 1 bottom_entry)
      (constructor blank_document one_per_page)"
    and a2: "after_pages 2 = handleIntersectionObserver (replicate 2 bottom_entry)
      (constructor blank_document one_per_page)"
    by (simp_all add: after_pages_def)
  have st: "pool (after_pages 1) = [0]" "nextId (after_pages 1) = 1"
    "pool (after_pages 2) = [0, 1]" "nextId (after_pages 2) = 2"
    by (simp_all add: eval_defs)
  have c1: "int (length (pool (after_pages 1))) < 2 * 1"
    and c2: "int (length (pool (after_pages 2))) = 2 * 1"
    unfolding st by simp_all
  show ?thesis
    using pool_never_exceeds_limit[OF h1 h2 h3 a1] pool_never_exceeds_limit[OF h1 h2 h3 a2] c1 c2
    unfolding st by simp
qed

subsection \<open>The \<open>down\<close> pass\<close>

text \<open>
  Claim C4 says that a \<open>down\<close> pass over a non-empty pool leaves the first card at \<open>0\<close>.
  It does not: the predecessor of the first card is \<open>pool.at(-1)\<close>, the last card, so
  the first card is put below the place the last card had before the pass. After the
  third page of the concrete component the pool is \<open>[1, 0]\<close> and its first card is at
  \<open>42\<close>; a pass over the two positioned cards of the second state moves the first card
  to \<open>84\<close>.
\<close>

theorem down_pass_first_counterexample:
  "pool (after_pages 3) = [1, 0]
   \<and> datay (elems (after_pages 3) (hd (pool (after_pages 3)))) = Some 42
   \<and> pool (snd (updateElementsPosition Down (after_pages 2))) = [0, 1]
   \<and> datay (elems (snd (updateElementsPosition Down (after_pages 2)))
        (hd (pool (snd (updateElementsPosition Down (after_pages 2)))))) = Some 84"
  by (simp add: eval_defs)

text \<open>
  Claim C4, amended. A \<open>down\<close> pass over a non-empty pool of distinct cards completes;
  the first card is stored at \<open>0\<close> when the last card had no stored position before the
  pass, and otherwise at the last card's former position plus the last card's height plus
  \<open>2 * MARGIN\<close>; every other card is stored at its predecessor's position plus the
  predecessor's height plus \<open>2 * MARGIN\<close>.
\<close>

theorem down_pass_positions:
  assumes "distinct (pool s)" and "pool s \<noteq> []"
    and "s' = snd (updateElementsPosition Down s)"
  shows "fst (updateElementsPosition Down s) = None \<and> pool s' = pool s
    \<and> (datay (elems s (last (pool s))) = None \<longrightarrow> datay (elems s' (hd (pool s'))) = Some 0)
    \<and> (\<forall>yl. datay (elems s (last (pool s))) = Some yl \<longrightarrow>
          datay (elems s' (hd (pool s'))) =
            Some (yl + height (elems s (last (pool s))) + 2 * MARGIN))
    \<and> (\<forall>i. 0 < i \<and> i < length (pool s') \<longrightarrow>
          (\<exists>yp. datay (elems s' (pool s' ! (i - 1))) = Some yp
             \<and> datay (elems s' (pool s' ! i)) =
                 Some (yp + height (elems s' (pool s' ! (i - 1))) + 2 * MARGIN)))"
proof -
  from layout_down[OF assms(1,2)] obtain f where
    run: "updateElementsPosition Down s =
             (None, s\<lparr>elems := f, topObserver := Some (translateY (Some (first_pos s))),
                bottomObserver := Some (translateY (Some (first_pos s + extent s)))\<rparr>)"
    and pos: "\<forall>j<length (pool s). datay (f (pool s ! j)) = Some (down_pos s j)"
    and hgt: "\<forall>v. height (f v) = height (elems s v)"
    by blast
  have el: "elems s' = f" and pl: "pool s' = pool s" using assms(3) run by simp_all
  have len: "0 < length (pool s)" using assms(2) by simp
  have first: "datay (f (hd (pool s))) = Some (first_pos s)"
    using pos len assms(2) by (simp add: hd_conv_nth down_pos_def)
  have adj: "\<exists>yp. datay (f (pool s ! (i - 1))) = Some yp
             \<and> datay (f (pool s ! i)) = Some (yp + height (f (pool s ! (i - 1))) + 2 * MARGIN)"
    if ipos: "0 < i" and ilt: "i < length (pool s)" for i
  proof -
    obtain k where k: "i = Suc k" using ipos by (cases i) auto
    have "datay (f (pool s ! k)) = Some (down_pos s k)" using pos ilt k by simp
    moreover have "datay (f (pool s ! Suc k)) = Some (down_pos s k + height (f (pool s ! k)) + 2 * MARGIN)"
      using pos ilt k hgt by (simp add: down_pos_def)
    ultimately show ?thesis using k by simp
  qed
  show ?thesis
    unfolding el pl using run first adj by (auto simp: first_pos_def)
qed

theorem down_pass_positions_witness:
  "distinct (pool (after_pages 2)) \<and> pool (after_pages 2) = [0, 1]
   \<and> datay (elems (after_pages 2) 1) = Some 42
   \<and> datay (elems (snd (updateElementsPosition Down (after_pages 2))) 0) = Some (42 + 10 + 2 * MARGIN)
   \<and> datay (elems (snd (updateElementsPosition Down (after_pages 2))) 1)
       = Some (42 + 10 + 2 * MARGIN + 10 + 2 * MARGIN)"
proof -
  let ?A = "after_pages 2"
  let ?S = "snd (updateElementsPosition Down ?A)"
  have st: "pool ?A = [0, 1]" "datay (elems ?A 1) = Some 42" "height (elems ?A 1) = 10"
    by (simp_all add: eval_defs)
  have h1: "distinct (pool ?A)" and h2: "pool ?A \<noteq> []"
    unfolding st by simp_all
  note r = down_pass_positions[OF h1 h2 refl]
  from r have pS: "pool ?S = pool ?A" by blast
  from r have f: "\<forall>yl. datay (elems ?A (last (pool ?A))) = Some yl \<longrightarrow>
          datay (elems ?S (hd (pool ?S))) = Some (yl + height (elems ?A (last (pool ?A))) + 2 * MARGIN)"
    by blast
  from r have adj: "\<forall>i. 0 < i \<and> i < length (pool ?S) \<longrightarrow>
          (\<exists>yp. datay (elems ?S (pool ?S ! (i - 1))) = Some yp
             \<and> datay (elems ?S (pool ?S ! i)) =
                 Some (yp + height (elems ?S (pool ?S ! (i - 1))) + 2 * MARGIN))"
    by blast
  have hg: "height (elems ?S 0) = 10"
    by (simp add: eval_defs)
  have a: "datay (elems ?S 0) = Some (42 + 10 + 2 * MARGIN)"
    using f st pS by simp
  have b: "datay (elems ?S 1) = Some (42 + 10 + 2 * MARGIN + 10 + 2 * MARGIN)"
    using adj[rule_format, of 1] pS st a hg by simp
  show ?thesis using h1 st a b by simp
qed

text \<open>
  Claim C5 says that two \<open>down\<close> passes in a row, over the same pool with the same
  heights, store the same positions. They do not: the second pass starts from the
  position the first pass gave the last card. The only card of the pool after one page
  is at \<open>42\<close> after one more pass and at \<open>84\<close> after two, its height being \<open>10\<close>
  throughout.
\<close>

theorem down_pass_twice_counterexample:
  "pool (after_pages 1) = [0]
   \<and> datay (elems (snd (updateElementsPosition Down (after_pages 1))) 0) = Some 42
   \<and> datay (elems (snd (updateElementsPosition Down
        (snd (updateElementsPosition Down (after_pages 1))))) 0) = Some 84
   \<and> height (elems (snd (updateElementsPosition Down (after_pages 1))) 0) = 10
   \<and> height (elems (snd (updateElementsPosition Down
        (snd (updateElementsPosition Down (after_pages 1))))) 0) = 10"
  by (simp add: eval_defs)

text \<open>
  Claim C5, amended. Over a non-empty pool of distinct cards, two \<open>down\<close> passes in a
  row leave the pool and the heights as they were, and the second pass stores every card
  at the position the first pass gave it plus one common amount, the extent of the pool
  (the sum of every card's height and \<open>2 * MARGIN\<close>): the distance between any two cards
  is the same after both passes. When no card of the pool has a negative height, as
  measured heights are, the extent is positive, the second position of every card is
  greater than its first, and so no card has the same position after both passes.
\<close>

theorem down_pass_twice_shifts:
  assumes "distinct (pool s)" and "pool s \<noteq> []"
    and "s1 = snd (updateElementsPosition Down s)"
    and "s2 = snd (updateElementsPosition Down s1)"
  shows "pool s1 = pool s \<and> pool s2 = pool s
    \<and> (\<forall>v. height (elems s1 v) = height (elems s v) \<and> height (elems s2 v) = height (elems s v))
    \<and> (\<forall>j<length (pool s). \<exists>y1. datay (elems s1 (pool s ! j)) = Some y1
           \<and> datay (elems s2 (pool s ! j)) = Some (y1 + extent s))
    \<and> (\<forall>i<length (pool s). \<forall>j<length (pool s). \<exists>a b c d.
           datay (elems s1 (pool s ! i)) = Some a \<and> datay (elems s1 (pool s ! j)) = Some b
           \<and> datay (elems s2 (pool s ! i)) = Some c \<and> datay (elems s2 (pool s ! j)) = Some d
           \<and> c - d = a - b)
    \<and> ((\<forall>v\<in>set (pool s). 0 \<le> height (elems s v)) \<longrightarrow>
          0 < extent s
          \<and> (\<forall>j<length (pool s). \<exists>y1 y2. datay (elems s1 (pool s ! j)) = Some y1
                \<and> datay (elems s2 (pool s ! j)) = Some y2 \<and> y1 < y2)
          \<and> (\<forall>j<length (pool s).
                datay (elems s1 (pool s ! j)) \<noteq> datay (elems s2 (pool s ! j))))"
proof -
  from layout_down[OF assms(1,2)] obtain f where
    run: "updateElementsPosition Down s =
             (None, s\<lparr>elems := f, topObserver := Some (translateY (Some (first_pos s))),
                bottomObserver := Some (translateY (Some (first_pos s + extent s)))\<rparr>)"
    and pos: "\<forall>j<length (pool s). datay (f (pool s ! j)) = Some (down_pos s j)"
    and hgt: "\<forall>v. height (f v) = height (elems s v)"
    by blast
  have el1: "elems s1 = f" and pl1: "pool s1 = pool s" using assms(3) run by simp_all
  have d1: "distinct (pool s1)" and ne1: "pool s1 \<noteq> []" using pl1 assms(1,2) by simp_all
  from layout_down[OF d1 ne1] obtain g where
    run2: "updateElementsPosition Down s1 =
             (None, s1\<lparr>elems := g, topObserver := Some (translateY (Some (first_pos s1))),
                bottomObserver := Some (translateY (Some (first_pos s1 + extent s1)))\<rparr>)"
    and pos2: "\<forall>j<length (pool s1). datay (g (pool s1 ! j)) = Some (down_pos s1 j)"
    and hgt2: "\<forall>v. height (g v) = height (elems s1 v)"
    by blast
  have el2: "elems s2 = g" and pl2: "pool s2 = pool s" using assms(4) run2 pl1 by simp_all
  have len: "0 < length (pool s)" using assms(2) by simp
  have l: "last (pool s) = pool s ! (length (pool s) - 1)"
    using assms(2) by (simp add: last_conv_nth)
  have "datay (f (last (pool s))) = Some (down_pos s (length (pool s) - 1))"
    using pos len l by simp
  then have "first_pos s1 = down_pos s (length (pool s) - 1) + MARGIN * 2
      + height (elems s (last (pool s)))"
    using hgt by (simp add: first_pos_def el1 pl1)
  then have fp: "first_pos s1 = first_pos s + extent s"
    using down_pos_last[OF assms(2)] by simp
  have shift: "down_pos s1 j = down_pos s j + extent s" for j
    using fp hgt by (simp add: down_pos_def el1 pl1)
  have p1: "datay (f (pool s ! j)) = Some (down_pos s j)" if "j < length (pool s)" for j
    using that pos by simp
  have p2: "datay (g (pool s ! j)) = Some (down_pos s j + extent s)" if "j < length (pool s)" for j
    using that pos2 shift pl1 by simp
  have a: "\<forall>j<length (pool s). \<exists>y1. datay (f (pool s ! j)) = Some y1
      \<and> datay (g (pool s ! j)) = Some (y1 + extent s)"
    using p1 p2 by simp
  have b: "\<forall>i<length (pool s). \<forall>j<length (pool s). \<exists>a b c d.
           datay (f (pool s ! i)) = Some a \<and> datay (f (pool s ! j)) = Some b
           \<and> datay (g (pool s ! i)) = Some c \<and> datay (g (pool s ! j)) = Some d
           \<and> c - d = a - b"
    using p1 p2 by simp
  have c: "0 < extent s
          \<and> (\<forall>j<length (pool s). \<exists>y1 y2. datay (f (pool s ! j)) = Some y1
                \<and> datay (g (pool s ! j)) = Some y2 \<and> y1 < y2)
          \<and> (\<forall>j<length (pool s). datay (f (pool s ! j)) \<noteq> datay (g (pool s ! j)))"
    if nonneg: "\<forall>v\<in>set (pool s). 0 \<le> height (elems s v)"
  proof -
    have e: "0 < extent s" using extent_positive[OF assms(2) nonneg] .
    then show ?thesis using p1 p2 by simp
  qed
  show ?thesis
    unfolding el1 el2 using pl1 pl2 hgt hgt2 el1 a b c by simp
qed

theorem down_pass_twice_shifts_witness:
  "distinct (pool (after_pages 2)) \<and> pool (after_pages 2) = [0, 1]
   \<and> 0 \<le> height (elems (after_pages 2) 0) \<and> 0 \<le> height (elems (after_pages 2) 1)
   \<and> extent (after_pages 2) = 84
   \<and> datay (elems (snd (updateElementsPosition Down (after_pages 2))) 1) = Some 126
   \<and> datay (elems (snd (updateElementsPosition Down
         (snd (updateElementsPosition Down (after_pages 2))))) 1) = Some (126 + 84)
   \<and> datay (elems (snd (updateElementsPosition Down (after_pages 2))) 0)
       \<noteq> datay (elems (snd (updateElementsPosition Down
         (snd (updateElementsPosition Down (after_pages 2))))) 0)"
proof -
  let ?A = "after_pages 2"
  let ?S1 = "snd (updateElementsPosition Down ?A)"
  let ?S2 = "snd (updateElementsPosition Down ?S1)"
  have st: "pool ?A = [0, 1]"
    by (simp add: eval_defs)
  have hs: "height (elems ?A 0) = 10" "height (elems ?A 1) = 10"
    by (simp_all add: eval_defs)
  have ex: "extent ?A = 84"
    by (simp add: extent_def eval_defs)
  have h1: "distinct (pool ?A)" and h2: "pool ?A \<noteq> []"
    unfolding st by simp_all
  have h3: "\<forall>v\<in>set (pool ?A). 0 \<le> height (elems ?A v)"
    unfolding st using hs by simp
  have y1: "datay (elems ?S1 1) = Some 126"
    by (simp add: eval_defs)
  note r = down_pass_twice_shifts[OF h1 h2 refl refl]
  from r have sh: "\<forall>j<length (pool ?A). \<exists>y1. datay (elems ?S1 (pool ?A ! j)) = Some y1
           \<and> datay (elems ?S2 (pool ?A ! j)) = Some (y1 + extent ?A)"
    by blast
  from r h3 have ne: "\<forall>j<length (pool ?A).
      datay (elems ?S1 (pool ?A ! j)) \<noteq> datay (elems ?S2 (pool ?A ! j))"
    by blast
  have y2: "datay (elems ?S2 1) = Some (126 + 84)"
    using sh[rule_format, of 1] st ex y1 by simp
  have d0: "datay (elems ?S1 0) \<noteq> datay (elems ?S2 0)"
    using ne[rule_format, of 0] st by simp
  show ?thesis using h1 st hs ex y1 y2 d0 by simp
qed

subsection \<open>The \<open>top\<close> pass\<close>

text \<open>
  Claim C6. A \<open>top\<close> pass over a pool of distinct cards that is longer than \<open>pageSize\<close>
  completes, and afterwards every card at an index \<open>i < pageSize\<close> is stored at the
  position of the card at \<open>i + 1\<close> (read as a number) minus its own height minus
  \<open>2 * MARGIN\<close>; no card but those of the first \<open>pageSize\<close> slots is changed, and no
  height is.
\<close>

theorem top_pass_positions:
  assumes "pageSize (props s) = Some n" and "distinct (pool s)"
    and "nat n < length (pool s)"
    and "s' = snd (updateElementsPosition Top s)"
  shows "fst (updateElementsPosition Top s) = None \<and> pool s' = pool s
    \<and> (\<forall>i<nat n. datay (elems s' (pool s' ! i)) =
          Some (to_number (datay (elems s' (pool s' ! (i + 1))))
                - height (elems s' (pool s' ! i)) - 2 * MARGIN))
    \<and> (\<forall>v. v \<notin> set (take (nat n) (pool s)) \<longrightarrow> elems s' v = elems s v)
    \<and> (\<forall>v. height (elems s' v) = height (elems s v))"
proof -
  let ?k = "nat n"
  from top_loop[OF assms(2,3)] obtain f where
    run: "for_loop top_step (rev [0..<?k]) s = (None, s\<lparr>elems := f\<rparr>)"
    and frame: "\<forall>v. v \<notin> set (take ?k (pool s)) \<longrightarrow> f v = elems s v"
    and hgt: "\<forall>v. height (f v) = height (elems s v)"
    and rel: "\<forall>j. Suc j < ?k \<longrightarrow> datay (f (pool s ! j)) =
                  Some (to_number (datay (f (pool s ! Suc j))) - MARGIN * 2 - height (f (pool s ! j)))"
    and top: "0 < ?k \<longrightarrow> datay (f (pool s ! (?k - 1))) =
                  Some (to_number (datay (elems s (pool s ! ?k))) - MARGIN * 2
                        - height (elems s (pool s ! (?k - 1))))"
    by auto
  have ne: "pool s \<noteq> []" using assms(3) by auto
  have res: "updateElementsPosition Top s =
      (None, s\<lparr>elems := f, topObserver := Some (translateY (datay (f (pool s ! 0)))),
         bottomObserver := Some (translateY (Some (to_number (datay (f (last (pool s))))
            + MARGIN * 2 + height (f (last (pool s))))))\<rparr>)"
    using assms(1) ne run
    by (simp add: updateElementsPosition_def top_indices_def array_at_last index_Some
        getBoundingClientRect_def Let_def)
  have el: "elems s' = f" and pl: "pool s' = pool s" using assms(4) res by simp_all
  have knotin: "pool s ! ?k \<notin> set (take ?k (pool s))"
  proof
    assume "pool s ! ?k \<in> set (take ?k (pool s))"
    then obtain j where "j < ?k" "pool s ! j = pool s ! ?k"
      using assms(3) by (auto simp: in_set_conv_nth)
    then show False using assms(2,3) by (simp add: nth_eq_iff_index_eq)
  qed
  then have fk: "f (pool s ! ?k) = elems s (pool s ! ?k)" using frame by simp
  have slot: "datay (f (pool s ! i)) =
      Some (to_number (datay (f (pool s ! (i + 1)))) - height (f (pool s ! i)) - 2 * MARGIN)"
    if ilt: "i < ?k" for i
  proof -
    consider "Suc i < ?k" | "Suc i = ?k" using ilt by linarith
    then show ?thesis
    proof cases
      case 1
      then show ?thesis using rel by simp
    next
      case 2
      then have "0 < ?k" "?k - 1 = i" by simp_all
      then show ?thesis using top fk hgt 2 by auto
    qed
  qed
  show ?thesis unfolding el pl using res slot frame hgt by simp
qed

theorem top_pass_positions_witness:
  "pageSize (props (after_pages 3)) = Some 1 \<and> pool (after_pages 3) = [1, 0]
   \<and> datay (elems (after_pages 3) 0) = Some 84
   \<and> datay (elems (snd (updateElementsPosition Top (after_pages 3))) 1) = Some (84 - 10 - 2 * MARGIN)
   \<and> elems (snd (updateElementsPosition Top (after_pages 3))) 0 = elems (after_pages 3) 0"
proof -
  let ?A = "after_pages 3"
  let ?S = "snd (updateElementsPosition Top ?A)"
  have st: "pool ?A = [1, 0]" "datay (elems ?A 0) = Some 84" "height (elems ?A 1) = 10"
    by (simp_all add: eval_defs)
  have h1: "pageSize (props ?A) = Some 1" by (simp add: eval_defs)
  have h2: "distinct (pool ?A)" and h3: "nat 1 < length (pool ?A)"
    unfolding st by simp_all
  note r = top_pass_positions[OF h1 h2 h3 refl]
  from r have pS: "pool ?S = pool ?A" by blast
  from r have slots: "\<forall>i<nat 1. datay (elems ?S (pool ?S ! i)) =
          Some (to_number (datay (elems ?S (pool ?S ! (i + 1))))
                - height (elems ?S (pool ?S ! i)) - 2 * MARGIN)"
    by blast
  from r have fr: "\<forall>v. v \<notin> set (take (nat 1) (pool ?A)) \<longrightarrow> elems ?S v = elems ?A v"
    by blast
  from r have hg: "\<forall>v. height (elems ?S v) = height (elems ?A v)" by blast
  have keep: "elems ?S 0 = elems ?A 0"
    using fr[rule_format, of 0] st by simp
  have a: "datay (elems ?S 1) = Some (84 - 10 - 2 * MARGIN)"
    using slots[rule_format, of 0] pS st keep hg[rule_format, of 1]
    by (simp add: to_number_def)
  show ?thesis using h1 st keep a by simp
qed

subsection \<open>The sentinels\<close>

text \<open>
  Claim C7. After a pass that completes, in either mode, the transform of the top sentinel
  is the translation by the stored position of the first card of the pool, and the
  transform of the bottom sentinel the translation by the stored position of the last
  card (read as a number) plus its height plus \<open>2 * MARGIN\<close>. A pass that completes had
  a non-empty pool.
\<close>

theorem sentinels_bracket_pool:
  assumes "updateElementsPosition dir s = (None, s')"
  shows "pool s' = pool s \<and> pool s \<noteq> []
    \<and> topObserver s' = Some (translateY (datay (elems s' (hd (pool s')))))
    \<and> bottomObserver s' = Some (translateY (Some (to_number (datay (elems s' (last (pool s'))))
          + height (elems s' (last (pool s'))) + 2 * MARGIN)))"
  using layout_sentinels[OF assms] .

theorem sentinels_bracket_pool_witness:
  "fst (updateElementsPosition Down (after_pages 2)) = None
   \<and> topObserver (snd (updateElementsPosition Down (after_pages 2))) = Some (translateY (Some 84))
   \<and> bottomObserver (snd (updateElementsPosition Down (after_pages 2)))
       = Some (translateY (Some (126 + 10 + 2 * MARGIN)))
   \<and> fst (updateElementsPosition Top (after_pages 3)) = None
   \<and> topObserver (snd (updateElementsPosition Top (after_pages 3))) = Some (translateY (Some 42))
   \<and> bottomObserver (snd (updateElementsPosition Top (after_pages 3)))
       = Some (translateY (Some (84 + 10 + 2 * MARGIN)))"
proof -
  let ?D = "updateElementsPosition Down (after_pages 2)"
  let ?T = "updateElementsPosition Top (after_pages 3)"
  have fd: "fst ?D = None" and ft: "fst ?T = None"
    by (simp_all add: eval_defs)
  have hd: "?D = (None, snd ?D)" using fd by (metis prod.collapse)
  have ht: "?T = (None, snd ?T)" using ft by (metis prod.collapse)
  have sd: "pool (after_pages 2) = [0, 1]" "datay (elems (snd ?D) 0) = Some 84"
    "datay (elems (snd ?D) 1) = Some 126" "height (elems (snd ?D) 1) = 10"
    by (simp_all add: eval_defs)
  have stp: "pool (after_pages 3) = [1, 0]" "datay (elems (snd ?T) 1) = Some 42"
    "datay (elems (snd ?T) 0) = Some 84" "height (elems (snd ?T) 0) = 10"
    by (simp_all add: eval_defs)
  have d: "topObserver (snd ?D) = Some (translateY (Some 84))
     \<and> bottomObserver (snd ?D) = Some (translateY (Some (126 + 10 + 2 * MARGIN)))"
    using sentinels_bracket_pool[OF hd] sd by (simp add: to_number_def)
  have t: "topObserver (snd ?T) = Some (translateY (Some 42))
     \<and> bottomObserver (snd ?T) = Some (translateY (Some (84 + 10 + 2 * MARGIN)))"
    using sentinels_bracket_pool[OF ht] stp by (simp add: to_number_def)
  show ?thesis using fd ft d t by simp
qed

subsection \<open>The top sentinel at the first page\<close>

text \<open>
  Claim C8. A notification that the top sentinel is visible, arriving while \<open>start\<close> is
  \<open>0\<close>, changes nothing: the whole state is the same afterwards, so no page was
  fetched, the cursors and the pool are as before, and no card was touched.
\<close>

theorem top_at_first_page_ignored:
  assumes "start s = 0" and "target_id e = ''top-observer''"
  shows "handleIntersectionObserver [e] s = s"
  using assms by (simp add: handleEntry_def)

theorem top_at_first_page_ignored_witness:
  "start (after_pages 2) = 0 \<and> target_id top_entry = ''top-observer''
   \<and> handleIntersectionObserver [top_entry] (after_pages 2) = after_pages 2"
proof -
  have h1: "start (after_pages 2) = 0" by (simp add: eval_defs)
  have h2: "target_id top_entry = ''top-observer''" by (simp add: top_entry_def)
  show ?thesis using top_at_first_page_ignored[OF h1 h2] h1 h2 by simp
qed

subsection \<open>Props with fields missing\<close>

text \<open>
  Claim C9 says that the component refuses props without \<open>getPage\<close>, \<open>getTemplate\<close> or
  \<open>pageSize\<close> when it is built. It does not: the constructor copies the props and sets
  the cursors, and the expression \<open>new VirtualList\<close> returns the object. With nothing in
  the props the first bottom trigger throws a \<open>TypeError\<close>, after \<open>end\<close> was advanced.
\<close>

theorem malformed_props_counterexample:
  "new_VirtualList blank_document bare_props = Inr (constructor blank_document bare_props)
   \<and> start (constructor blank_document bare_props) = 0
   \<and> pool (constructor blank_document bare_props) = []
   \<and> handleBottomObserver (constructor blank_document bare_props)
       = (Some TypeError, (constructor blank_document bare_props)\<lparr>end_cursor := 1\<rparr>)"
  by (simp add: bare_props_def new_VirtualList_def eval_defs)

text \<open>
  Claim C9, amended. Building the component succeeds whatever the props are and gives the
  initial state. Without \<open>getPage\<close> or without \<open>pageSize\<close> the handling of the first
  bottom trigger throws a \<open>TypeError\<close>; without \<open>getTemplate\<close> it throws one when the
  first page has a record.
\<close>

theorem constructor_accepts_any_props:
  "new_VirtualList doc p = Inr (constructor doc p)
   \<and> start (constructor doc p) = 0 \<and> end_cursor (constructor doc p) = 0
   \<and> pool (constructor doc p) = []
   \<and> (getPage p = None \<or> pageSize p = None \<longrightarrow>
        fst (handleBottomObserver (constructor doc p)) = Some TypeError)
   \<and> (\<forall>gp n. getTemplate p = None \<and> getPage p = Some gp \<and> gp 0 \<noteq> []
         \<and> pageSize p = Some n \<and> 0 < n \<longrightarrow>
        fst (handleBottomObserver (constructor doc p)) = Some TypeError)"
proof -
  let ?s = "constructor doc p"
  have empty_pass: "fst (updateElementsPosition Down s) = Some TypeError" if "pool s = []" for s :: "'a state"
    using that
    by (simp add: updateElementsPosition_def array_at_last getBoundingClientRect_def Let_def)
  have a: "fst (handleBottomObserver ?s) = Some TypeError" if "getPage p = None"
    using that by (simp add: handleBottomObserver_def constructor_def Let_def)
  have b: "fst (handleBottomObserver ?s) = Some TypeError" if ps: "pageSize p = None"
  proof (cases "getPage p")
    case None
    then show ?thesis using a by simp
  next
    case (Some gp)
    let ?s3 = "?s\<lparr>end_cursor := 1, fetchLog := [0], pool := []\<rparr>"
    have h: "handleBottomObserver ?s =
        (case updateData [] (gp 0) ?s3 of
           (Some e, s4) \<Rightarrow> (Some e, s4)
         | (None, s4) \<Rightarrow> updateElementsPosition Down (s4\<lparr>start := start s4 + 1\<rparr>))"
      using Some ps
      by (simp add: handleBottomObserver_def constructor_def Let_def slice_def)
    show ?thesis
    proof (cases "gp 0 = [] \<or> updateTemplate p \<noteq> None")
      case False
      then show ?thesis unfolding h
        by (simp add: updateData_def constructor_def)
    next
      case True
      then obtain s4 where u: "updateData [] (gp 0) ?s3 = (None, s4)" and p4: "pool s4 = []"
      proof (cases "gp 0 = []")
        case True
        then show ?thesis using that[of ?s3] by (simp add: updateData_def)
      next
        case False
        then obtain ut where ut: "updateTemplate p = Some ut" using True by auto
        obtain g l where "bindAll ut [] (gp 0) ?s3 = ?s3\<lparr>elems := g, bindLog := l\<rparr>"
          using bindAll_frame by blast
        then show ?thesis using that[of "?s3\<lparr>elems := g, bindLog := l\<rparr>"] False ut
          by (simp add: updateData_def constructor_def)
      qed
      show ?thesis unfolding h u using empty_pass[of "s4\<lparr>start := start s4 + 1\<rparr>"] p4 by simp
    qed
  qed
  have c: "fst (handleBottomObserver ?s) = Some TypeError"
    if "getTemplate p = None" "getPage p = Some gp" "gp 0 \<noteq> []" "pageSize p = Some n" "0 < n"
    for gp n
    using that by (simp add: handleBottomObserver_def constructor_def Let_def)
  show ?thesis using a b c by (simp add: new_VirtualList_def constructor_def)
qed

theorem constructor_accepts_any_props_witness:
  "getPage bare_props = None
   \<and> new_VirtualList blank_document bare_props = Inr (constructor blank_document bare_props)
   \<and> fst (handleBottomObserver (constructor blank_document bare_props)) = Some TypeError"
proof -
  have h: "getPage bare_props = None" by (simp add: bare_props_def)
  show ?thesis
    using constructor_accepts_any_props[of blank_document bare_props] h by blast
qed

subsection \<open>The cursors and the pool\<close>

text \<open>
  Claim C10. In a component whose fetches all return \<open>pageSize\<close> records and whose
  handlers run one after the other, every state reached from the initial one has
  \<open>length pool = pageSize * (end - start)\<close> and \<open>0 \<le> end - start \<le> 2\<close>.
\<close>

theorem cursors_track_pool:
  assumes "p = \<lparr>getPage = Some gp, getTemplate = Some gt, updateTemplate = Some ut,
      pageSize = Some n\<rparr>"
    and "\<forall>k. length (gp k) = nat n" and "0 \<le> n"
    and "s = handleIntersectionObserver es (constructor doc p)"
  shows "int (length (pool s)) = n * (end_cursor s - start s)
    \<and> 0 \<le> end_cursor s - start s \<and> end_cursor s - start s \<le> 2 \<and> 0 \<le> start s"
proof -
  have ps: "pageSize p = Some n" using assms(1) by simp
  have "mounted p n s"
    unfolding assms(4)
    using mounted_run[OF mounted_constructor[OF ps] assms(1,2,3)] .
  then show ?thesis by (simp add: mounted_def cursor_inv_def)
qed

theorem cursors_track_pool_witness:
  "int (length (pool scrolled_back)) = 1 * (end_cursor scrolled_back - start scrolled_back)
   \<and> end_cursor scrolled_back - start scrolled_back = 2
   \<and> pool scrolled_back = [0, 1]"
proof -
  have h1: "one_per_page = \<lparr>getPage = Some (\<lambda>k. [nat k]),
      getTemplate = Some (\<lambda>d. \<lparr>datay = None, transform = None, height = 10, content = d\<rparr>),
      updateTemplate = Some (\<lambda>d e. e\<lparr>content := d\<rparr>), pageSize = Some 1\<rparr>"
    by (simp add: one_per_page_def)
  have h2: "\<forall>k. length [nat k] = nat 1" by simp
  have h3: "(0::int) \<le> 1" by simp
  have h4: "scrolled_back = handleIntersectionObserver
      [bottom_entry, bottom_entry, bottom_entry, top_entry]
      (constructor blank_document one_per_page)"
    by (simp add: scrolled_back_def)
  have st: "end_cursor scrolled_back = 2" "start scrolled_back = 0" "pool scrolled_back = [0, 1]"
    by (simp_all add: scrolled_back_def top_entry_def eval_defs)
  show ?thesis
    using cursors_track_pool[OF h1 h2 h3 h4]
    unfolding st by simp
qed

end
